theory Spec2Isabelle
  imports Main
begin

section \<open>Data model of \<^verbatim>\<open>src/core/environment.ts\<close>\<close>

text \<open>
  Entities are JavaScript objects that are compared and shared by reference
  (\<^verbatim>\<open>obj.parent === entity\<close>, \<^verbatim>\<open>indexOf(entity)\<close>), so the model keeps an
  explicit object store: a reference is a natural number, the store maps references to
  entity records, and \<open>nextRef\<close> is the next reference that \<^verbatim>\<open>new Entity\<close> hands out.
  Executors, parsers, functions and command trees are objects of modules that are not
  part of \<^verbatim>\<open>environment.ts\<close>; they occur as opaque references.
\<close>

type_synonym eid = nat
type_synonym xref = nat
type_synonym pref = nat
type_synonym fnref = nat
type_synonym cmdtree = nat

datatype val = VNum int | VStr string | VBool bool | VObj nat

text \<open>\<^verbatim>\<open>JumpOp.create(labelName, args)\<close>: the pair handed back to the executor unmodified.\<close>

datatype jump = JumpOp string "val list"

datatype error = TypeError | DuplicateObjectDefinition | BadObjectDefinition

text \<open>
  The fields of class \<^verbatim>\<open>Entity\<close>. The field \<^verbatim>\<open>id\<close> is the decimal rendering of the number
  that \<^verbatim>\<open>Util.generateId()\<close> returns; the record keeps the number.
\<close>

record entity =
  id_num :: nat
  board :: "eid option"
  name :: string
  script :: "fnref option"
  initParams :: "string list"
  depth :: nat
  parent :: "eid option"
  variables :: "(string \<times> val) list"
  adoptions :: "cmdtree list"
  groups :: "string list"
  ended :: bool
  cycleEnded :: bool
  locked :: bool
  pendingJumpOp :: "jump option"
  executor :: "xref option"

text \<open>
  An \<^verbatim>\<open>InstanceMap\<close> is a JavaScript object used as a dictionary from object names to
  arrays of entities. A level is the association list of its own properties in the order
  in which they were created; the order in which \<^verbatim>\<open>for ... in\<close> enumerates them and the
  properties that every plain object inherits are modelled below (\<open>js_keys\<close>,
  \<open>object_prototype\<close>).
\<close>

type_synonym level = "(string \<times> eid list) list"

text \<open>
  The fields of class \<^verbatim>\<open>Board\<close> together with the object store. \<open>boardRef\<close> is the
  board's own reference (a board is an entity), \<open>runScript\<close> the function handed to
  \<^verbatim>\<open>run\<close>. \<open>idCounter\<close> is the state of
  \<^verbatim>\<open>Util.generateId\<close>, \<open>groupStore\<close> the state of the \<^verbatim>\<open>GroupStore\<close>, \<open>destroyed\<close> the
  sequence of \<^verbatim>\<open>__destroy__\<close> calls made on adoptions so far, and \<open>world\<close> whatever state
  the executors and the host keep for themselves.
\<close>

record 'w state =
  heap :: "eid \<Rightarrow> entity"
  nextRef :: eid
  idCounter :: nat
  boardRef :: eid
  runScript :: fnref
  objects :: "string \<rightharpoonup> eid"
  autoStep :: bool
  parser :: "pref option"
  instances :: "level list"
  spawnedObjs :: "eid list"
  deletedObjs :: "eid list"
  groupStore :: "string \<rightharpoonup> eid list"
  terminated :: bool
  destroyed :: "cmdtree list"
  world :: 'w

text \<open>
  The collaborators that \<^verbatim>\<open>environment.ts\<close> imports and calls but does not define, taken
  as parameters:
  \<^item> \<open>parse\<close> is \<^verbatim>\<open>Parser.parse(entity)\<close>, which produces the executor of an entity (it
    reads the state and may change what the collaborators keep for themselves);
  \<^item> \<open>hasEnabled\<close> is \<^verbatim>\<open>executor.labelStore.hasEnabled(labelName)\<close>;
  \<^item> \<open>execJumpOp\<close> is \<^verbatim>\<open>executor.execJumpOp(op)\<close>;
  \<^item> \<open>xstep\<close> is \<^verbatim>\<open>executor.step()\<close>, which runs one unit of a script and may therefore
    change any part of the state;
  \<^item> \<open>setupFunc\<close> and \<open>finishFunc\<close> are the host's setup and finish callbacks (the
    functions handed to \<^verbatim>\<open>setup\<close> and \<^verbatim>\<open>finish\<close>); the setup callback registers prototypes
    and groups and may throw.
  A call of an executor or of the finish callback is taken to return normally.
\<close>

record 'w collab =
  parse :: "pref \<Rightarrow> eid \<Rightarrow> 'w state \<Rightarrow> xref \<times> 'w"
  hasEnabled :: "xref \<Rightarrow> string \<Rightarrow> 'w \<Rightarrow> bool"
  execJumpOp :: "xref \<Rightarrow> jump \<Rightarrow> 'w state \<Rightarrow> 'w state"
  xstep :: "xref \<Rightarrow> 'w state \<Rightarrow> bool \<times> 'w state"
  finishFunc :: "'w state \<Rightarrow> 'w state"
  setupFunc :: "'w state \<Rightarrow> (error + unit) \<times> 'w state"

text \<open>
  A call that can throw returns the exception or its value, together with the state at
  that moment. A call that contains a loop which may run forever takes a bound \<open>n\<close> on
  the number of iterations of each loop and returns \<open>None\<close> when the bound is exceeded.
\<close>

type_synonym ('a, 'w) outcome = "(error + 'a) \<times> 'w state"

section \<open>Class Entity\<close>

definition upd :: "eid \<Rightarrow> (entity \<Rightarrow> entity) \<Rightarrow> 'w state \<Rightarrow> 'w state" where
  "upd r f s = s\<lparr>heap := (heap s)(r := f (heap s r))\<rparr>"

text \<open>
  Modelled from the spec: \<^verbatim>\<open>Util.generateId\<close> (module \<^verbatim>\<open>./util\<close>) is missing; the spec
  asks for a stable unique id, so the generator is a counter.
\<close>

definition generateId :: "'w state \<Rightarrow> nat \<times> 'w state" where
  "generateId s = (idCounter s, s\<lparr>idCounter := Suc (idCounter s)\<rparr>)"

text \<open>The constructor of \<^verbatim>\<open>Entity\<close>, lines 36 to 52; the new object gets the next reference.\<close>

definition new_Entity ::
  "eid option \<Rightarrow> string \<Rightarrow> fnref option \<Rightarrow> string list \<Rightarrow> 'w state \<Rightarrow> eid \<times> 'w state" where
  "new_Entity b nm sc ps s =
     (let r = nextRef s;
          (i, s1) = generateId s
      in (r, s1\<lparr>heap := (heap s1)(r :=
                 \<lparr>id_num = i, board = b, name = nm, script = sc, initParams = ps,
                  depth = 0, parent = None, variables = [], adoptions = [], groups = [],
                  ended = False, cycleEnded = False, locked = False,
                  pendingJumpOp = None, executor = None\<rparr>),
               nextRef := Suc r\<rparr>))"

definition clone :: "eid \<Rightarrow> 'w state \<Rightarrow> eid \<times> 'w state" where
  "clone p s =
     new_Entity (board (heap s p)) (name (heap s p)) (script (heap s p)) (initParams (heap s p)) s"

text \<open>
  \<^verbatim>\<open>gotoLabel\<close>, lines 63 to 71. The test is \<^verbatim>\<open>this.locked || !this.executor...\<close>: a locked
  entity returns before the executor is read; otherwise reading \<^verbatim>\<open>labelStore\<close> of a
  \<^verbatim>\<open>null\<close> executor throws a TypeError.
\<close>

definition gotoLabel ::
  "'w collab \<Rightarrow> eid \<Rightarrow> string \<Rightarrow> val list \<Rightarrow> 'w state \<Rightarrow> (unit, 'w) outcome" where
  "gotoLabel C r labelName args s =
     (if locked (heap s r) then (Inr (), s)
      else case executor (heap s r) of
             None \<Rightarrow> (Inl TypeError, s)
           | Some x \<Rightarrow>
               if \<not> hasEnabled C x labelName (world s) then (Inr (), s)
               else (Inr (), upd r (\<lambda>e. e\<lparr>pendingJumpOp := Some (JumpOp labelName args),
                                          ended := False, cycleEnded := False\<rparr>) s))"

definition begin_entity :: "'w collab \<Rightarrow> eid \<Rightarrow> val list \<Rightarrow> 'w state \<Rightarrow> (unit, 'w) outcome" where
  "begin_entity C r initArgs s =
     gotoLabel C r ''init'' initArgs (upd r (\<lambda>e. e\<lparr>cycleEnded := False\<rparr>) s)"

text \<open>
  The two places of \<^verbatim>\<open>execute\<close> that apply a pending jump (lines 81 to 84 and 90 to 93):
  \<^verbatim>\<open>if (this.pendingJumpOp) { this.executor.execJumpOp(...); this.pendingJumpOp = null; }\<close>
\<close>

definition apply_pending :: "'w collab \<Rightarrow> eid \<Rightarrow> 'w state \<Rightarrow> (unit, 'w) outcome" where
  "apply_pending C r s =
     (case pendingJumpOp (heap s r) of
        None \<Rightarrow> (Inr (), s)
      | Some j \<Rightarrow>
          (case executor (heap s r) of
             None \<Rightarrow> (Inl TypeError, s)
           | Some x \<Rightarrow> (Inr (), upd r (\<lambda>e. e\<lparr>pendingJumpOp := None\<rparr>) (execJumpOp C x j s))))"

text \<open>
  The \<^verbatim>\<open>while (this.executor.step())\<close> loop of \<^verbatim>\<open>execute\<close>, lines 86 to 94. The loop has no
  bound in the source; \<open>n\<close> bounds the number of calls of \<^verbatim>\<open>step\<close>.
\<close>

fun exec_loop :: "'w collab \<Rightarrow> nat \<Rightarrow> eid \<Rightarrow> 'w state \<Rightarrow> (unit, 'w) outcome option" where
  "exec_loop C 0 r s = None"
| "exec_loop C (Suc n) r s =
     (case executor (heap s r) of
        None \<Rightarrow> Some (Inl TypeError, s)
      | Some x \<Rightarrow>
          (case xstep C x s of
             (again, s1) \<Rightarrow>
               if \<not> again then Some (Inr (), s1)
               else if cycleEnded (heap s1 r) \<or> ended (heap s1 r) then Some (Inr (), s1)
               else (case apply_pending C r s1 of
                       (Inl e, s2) \<Rightarrow> Some (Inl e, s2)
                     | (Inr u, s2) \<Rightarrow> exec_loop C n r s2)))"

text \<open>\<^verbatim>\<open>execute\<close>, lines 73 to 95.\<close>

definition execute :: "'w collab \<Rightarrow> nat \<Rightarrow> eid \<Rightarrow> 'w state \<Rightarrow> (unit, 'w) outcome option" where
  "execute C n r s =
     (let s0 = upd r (\<lambda>e. e\<lparr>cycleEnded := False\<rparr>) s
      in if ended (heap s0 r) then Some (Inr (), s0)
         else (case apply_pending C r s0 of
                 (Inl e, s1) \<Rightarrow> Some (Inl e, s1)
               | (Inr u, s1) \<Rightarrow> exec_loop C n r s1))"

text \<open>\<^verbatim>\<open>destroyAdoptions\<close>, lines 97 to 102: each adoption is released in order, then the list is emptied.\<close>

definition destroyAdoptions :: "eid \<Rightarrow> 'w state \<Rightarrow> 'w state" where
  "destroyAdoptions r s =
     upd r (\<lambda>e. e\<lparr>adoptions := []\<rparr>) (s\<lparr>destroyed := destroyed s @ adoptions (heap s r)\<rparr>)"


section \<open>Class Board\<close>

text \<open>
  The constructor of \<^verbatim>\<open>Board\<close>, lines 121 to 138, on an empty object store: the board is
  an entity named \<^verbatim>\<open>_board\<close> whose \<^verbatim>\<open>board\<close> field is itself. \<open>blank\<close> fills the cells
  of the store that no object occupies yet, \<open>empty_fn\<close> is the \<^verbatim>\<open>function () {}\<close> that
  the constructor stores in \<^verbatim>\<open>runScript\<close>.
\<close>

definition blank :: entity where
  "blank = \<lparr>id_num = 0, board = None, name = [], script = None, initParams = [],
            depth = 0, parent = None, variables = [], adoptions = [], groups = [],
            ended = False, cycleEnded = False, locked = False,
            pendingJumpOp = None, executor = None\<rparr>"

definition empty_fn :: fnref where
  "empty_fn = 0"

definition new_Board :: "'w \<Rightarrow> 'w state" where
  "new_Board w =
     (let s0 = \<lparr>heap = (\<lambda>r. blank), nextRef = 0, idCounter = 0, boardRef = 0,
                runScript = empty_fn, objects = Map.empty, autoStep = False,
                parser = None, instances = [ []],
                spawnedObjs = [], deletedObjs = [], groupStore = Map.empty,
                terminated = False, destroyed = [], world = w\<rparr>;
          (b, s1) = new_Entity None ''_board'' None [] s0
      in upd b (\<lambda>e. e\<lparr>board := Some b\<rparr>) (s1\<lparr>boardRef := b\<rparr>))"

text \<open>
  \<^verbatim>\<open>configure\<close>, lines 155 to 159: \<open>p\<close> is \<^verbatim>\<open>config.parser\<close>, or the \<^verbatim>\<open>new Parser()\<close> that
  replaces a missing one.
\<close>

definition configure :: "bool \<Rightarrow> pref \<Rightarrow> 'w state \<Rightarrow> 'w state" where
  "configure a p s = s\<lparr>autoStep := a, parser := Some p\<rparr>"

text \<open>\<^verbatim>\<open>run\<close>, lines 145 to 148.\<close>

definition run :: "fnref \<Rightarrow> 'w state \<Rightarrow> 'w state" where
  "run sc s = s\<lparr>runScript := sc\<rparr>"

subsection \<open>Arrays\<close>

text \<open>\<^verbatim>\<open>Array.prototype.indexOf\<close>: the first index of the element, or \<open>-1\<close>.\<close>

definition indexOf :: "'a list \<Rightarrow> 'a \<Rightarrow> int" where
  "indexOf xs x = (if x \<in> set xs then int (length (takeWhile (\<lambda>y. y \<noteq> x) xs)) else - 1)"

text \<open>
  \<^verbatim>\<open>Array.prototype.splice(start, 1)\<close>: a negative \<open>start\<close> counts from the end of the
  array (and is clamped at 0), a \<open>start\<close> beyond the end is the length; one element
  is removed at that place when there is one.
\<close>

definition splice1 :: "int \<Rightarrow> 'a list \<Rightarrow> 'a list" where
  "splice1 start xs =
     (let len = int (length xs);
          st = nat (if start < 0 then max (len + start) 0 else min start len)
      in take st xs @ drop (Suc st) xs)"

text \<open>Assignment \<^verbatim>\<open>level[name] = bucket\<close>: an existing key keeps its place, a new key comes last.\<close>

fun put_bucket :: "string \<Rightarrow> eid list \<Rightarrow> level \<Rightarrow> level" where
  "put_bucket k v [] = [(k, v)]"
| "put_bucket k v ((k', v') # kvs) =
     (if k' = k then (k, v) # kvs else (k', v') # put_bucket k v kvs)"

subsection \<open>Plain objects used as dictionaries\<close>

text \<open>
  \<^verbatim>\<open>this.objects\<close> and every level of \<^verbatim>\<open>this.instances\<close> are created as \<^verbatim>\<open>{}\<close>, so a read
  \<^verbatim>\<open>obj[name]\<close> of a name that is no own property finds the member of \<^verbatim>\<open>Object.prototype\<close>
  of that name, when there is one. The table lists these members: the key, what
  \<^verbatim>\<open>.name\<close> of the member gives when it is used as a property key (the name of the
  function; \<^verbatim>\<open>__proto__\<close> reads as \<^verbatim>\<open>Object.prototype\<close> itself, whose \<^verbatim>\<open>.name\<close> is \<^verbatim>\<open>undefined\<close>),
  and its \<^verbatim>\<open>.length\<close> (the number of parameters of the function). Every member is truthy,
  and none has a property \<^verbatim>\<open>push\<close>, \<^verbatim>\<open>splice\<close> or \<^verbatim>\<open>indexOf\<close>, nor one named by a number.
\<close>

definition object_prototype :: "(string \<times> string \<times> nat option) list" where
  "object_prototype =
     [(''constructor'', ''Object'', Some 1),
      (''__defineGetter__'', ''__defineGetter__'', Some 2),
      (''__defineSetter__'', ''__defineSetter__'', Some 2),
      (''hasOwnProperty'', ''hasOwnProperty'', Some 1),
      (''__lookupGetter__'', ''__lookupGetter__'', Some 1),
      (''__lookupSetter__'', ''__lookupSetter__'', Some 1),
      (''isPrototypeOf'', ''isPrototypeOf'', Some 1),
      (''propertyIsEnumerable'', ''propertyIsEnumerable'', Some 1),
      (''toString'', ''toString'', Some 0),
      (''valueOf'', ''valueOf'', Some 0),
      (''__proto__'', ''undefined'', None),
      (''toLocaleString'', ''toLocaleString'', Some 0)]"

text \<open>
  The order of \<^verbatim>\<open>for ... in\<close> over the own properties of a plain object: the keys that
  are array indices (decimal numerals without a leading zero, below \<open>2^32 - 1\<close>) come
  first, in ascending numeric order, then the other keys in the order of their creation.
\<close>

definition digit_of :: "char \<Rightarrow> nat option" where
  "digit_of c =
     (let code = (of_char c :: nat)
      in if 48 \<le> code \<and> code \<le> 57 then Some (code - 48) else None)"

fun decimal :: "nat \<Rightarrow> string \<Rightarrow> nat option" where
  "decimal acc [] = Some acc"
| "decimal acc (c # cs) =
     (case digit_of c of None \<Rightarrow> None | Some d \<Rightarrow> decimal (10 * acc + d) cs)"

definition array_index :: "string \<Rightarrow> nat option" where
  "array_index k =
     (case k of
        [] \<Rightarrow> None
      | c # cs \<Rightarrow>
          if c = CHR ''0'' \<and> cs \<noteq> [] then None
          else (case decimal 0 k of
                  None \<Rightarrow> None
                | Some v \<Rightarrow> if v < 4294967295 then Some v else None))"

definition js_keys :: "level \<Rightarrow> string list" where
  "js_keys lvl =
     sort_key (\<lambda>k. case array_index k of Some i \<Rightarrow> i | None \<Rightarrow> 0)
       (filter (\<lambda>k. array_index k \<noteq> None) (map fst lvl))
     @ filter (\<lambda>k. array_index k = None) (map fst lvl)"

text \<open>
  The bucket of a name that is a key of a level (empty for any other name), and the
  entities of a level in the order in which the nested loops
  \<^verbatim>\<open>for (name in level) for (obj of level[name])\<close> visit them.
\<close>

definition bucket_of :: "level \<Rightarrow> string \<Rightarrow> eid list" where
  "bucket_of lvl nm = (case map_of lvl nm of None \<Rightarrow> [] | Some b \<Rightarrow> b)"

definition level_order :: "level \<Rightarrow> eid list" where
  "level_order lvl = concat (map (bucket_of lvl) (js_keys lvl))"

subsection \<open>The tick\<close>

text \<open>
  Body of the loop that adds spawned objects, lines 193 to 196. When the entity's name is
  no key of the level but names a member of \<^verbatim>\<open>Object.prototype\<close>, the test
  \<^verbatim>\<open>!this.instances[depth][name]\<close> finds that member, no bucket is created, and the call of
  \<^verbatim>\<open>push\<close> on the member throws.
\<close>

definition promote :: "eid \<Rightarrow> 'w state \<Rightarrow> (unit, 'w) outcome" where
  "promote r s =
     (let d = depth (heap s r); nm = name (heap s r)
      in if length (instances s) \<le> d then (Inl TypeError, s)
         else let lvl = instances s ! d
              in (case map_of lvl nm of
                    Some b \<Rightarrow>
                      (Inr (), s\<lparr>instances := (instances s)[d := put_bucket nm (b @ [r]) lvl]\<rparr>)
                  | None \<Rightarrow>
                      if map_of object_prototype nm \<noteq> None then (Inl TypeError, s)
                      else (Inr (), s\<lparr>instances := (instances s)[d := put_bucket nm [r] lvl]\<rparr>)))"

fun promote_all :: "eid list \<Rightarrow> 'w state \<Rightarrow> (unit, 'w) outcome" where
  "promote_all [] s = (Inr (), s)"
| "promote_all (r # rs) s =
     (case promote r s of
        (Inl e, s1) \<Rightarrow> (Inl e, s1)
      | (Inr u, s1) \<Rightarrow> promote_all rs s1)"

text \<open>
  Body of the loop that purges dead objects, lines 202 to 203: the bucket of the entity's
  depth and name is spliced at the index that \<^verbatim>\<open>indexOf\<close> returns. When the name is no
  key of the level the call throws, whether the read gives \<^verbatim>\<open>undefined\<close> or a member of
  \<^verbatim>\<open>Object.prototype\<close>.
\<close>

definition purge :: "eid \<Rightarrow> 'w state \<Rightarrow> (unit, 'w) outcome" where
  "purge r s =
     (let d = depth (heap s r); nm = name (heap s r)
      in if length (instances s) \<le> d then (Inl TypeError, s)
         else (case map_of (instances s ! d) nm of
                 None \<Rightarrow> (Inl TypeError, s)
               | Some b \<Rightarrow>
                   (Inr (), s\<lparr>instances :=
                      (instances s)[d := put_bucket nm (splice1 (indexOf b r) b) (instances s ! d)]\<rparr>)))"

fun purge_all :: "eid list \<Rightarrow> 'w state \<Rightarrow> (unit, 'w) outcome" where
  "purge_all [] s = (Inr (), s)"
| "purge_all (r # rs) s =
     (case purge r s of
        (Inl e, s1) \<Rightarrow> (Inl e, s1)
      | (Inr u, s1) \<Rightarrow> purge_all rs s1)"

text \<open>
  The innermost loop of the traversal, lines 210 to 212, from index \<open>j\<close> on: the bucket
  and its length are read again at every iteration. \<open>k\<close> bounds the iterations of this
  loop, \<open>n\<close> those of the loop inside \<^verbatim>\<open>execute\<close>. The value is the list of the entities
  whose \<^verbatim>\<open>execute\<close> was called, in order. Should the name no longer be a key of the
  level, the read gives \<^verbatim>\<open>undefined\<close>, whose \<^verbatim>\<open>.length\<close> throws, or a member of
  \<^verbatim>\<open>Object.prototype\<close>: then the loop ends when \<open>j\<close> is not below the member's \<^verbatim>\<open>.length\<close>,
  and otherwise \<^verbatim>\<open>[j].execute()\<close> throws.
\<close>

fun exec_bucket ::
  "'w collab \<Rightarrow> nat \<Rightarrow> nat \<Rightarrow> nat \<Rightarrow> string \<Rightarrow> nat \<Rightarrow> 'w state \<Rightarrow> (eid list, 'w) outcome option" where
  "exec_bucket C n 0 i nm j s = None"
| "exec_bucket C n (Suc k) i nm j s =
     (if length (instances s) \<le> i then Some (Inl TypeError, s)
      else (case map_of (instances s ! i) nm of
              None \<Rightarrow>
                (case map_of object_prototype nm of
                   None \<Rightarrow> Some (Inl TypeError, s)
                 | Some (fname, len) \<Rightarrow>
                     (case len of
                        None \<Rightarrow> Some (Inr [], s)
                      | Some l \<Rightarrow> if j < l then Some (Inl TypeError, s) else Some (Inr [], s)))
            | Some b \<Rightarrow>
                if j < length b then
                  (case execute C n (b ! j) s of
                     None \<Rightarrow> None
                   | Some (Inl e, s1) \<Rightarrow> Some (Inl e, s1)
                   | Some (Inr u, s1) \<Rightarrow>
                       (case exec_bucket C n k i nm (Suc j) s1 of
                          None \<Rightarrow> None
                        | Some (Inl e, s2) \<Rightarrow> Some (Inl e, s2)
                        | Some (Inr tr, s2) \<Rightarrow> Some (Inr (b ! j # tr), s2)))
                else Some (Inr [], s)))"

text \<open>
  The \<^verbatim>\<open>for (let objName in this.instances[i])\<close> loop, line 209, over the keys it
  enumerates.
\<close>

fun exec_names ::
  "'w collab \<Rightarrow> nat \<Rightarrow> nat \<Rightarrow> string list \<Rightarrow> 'w state \<Rightarrow> (eid list, 'w) outcome option" where
  "exec_names C n i [] s = Some (Inr [], s)"
| "exec_names C n i (nm # nms) s =
     (case exec_bucket C n n i nm 0 s of
        None \<Rightarrow> None
      | Some (Inl e, s1) \<Rightarrow> Some (Inl e, s1)
      | Some (Inr tr, s1) \<Rightarrow>
          (case exec_names C n i nms s1 of
             None \<Rightarrow> None
           | Some (Inl e, s2) \<Rightarrow> Some (Inl e, s2)
           | Some (Inr tr', s2) \<Rightarrow> Some (Inr (tr @ tr'), s2)))"

text \<open>
  The outer loop, line 208, with \<open>i\<close> levels still to visit: level \<open>i - 1\<close> comes next.
  A \<^verbatim>\<open>for ... in\<close> over a level that does not exist enumerates nothing.
\<close>

fun exec_levels ::
  "'w collab \<Rightarrow> nat \<Rightarrow> nat \<Rightarrow> 'w state \<Rightarrow> (eid list, 'w) outcome option" where
  "exec_levels C n 0 s = Some (Inr [], s)"
| "exec_levels C n (Suc i) s =
     (case exec_names C n i (if i < length (instances s) then js_keys (instances s ! i) else []) s of
        None \<Rightarrow> None
      | Some (Inl e, s1) \<Rightarrow> Some (Inl e, s1)
      | Some (Inr tr, s1) \<Rightarrow>
          (case exec_levels C n i s1 of
             None \<Rightarrow> None
           | Some (Inl e, s2) \<Rightarrow> Some (Inl e, s2)
           | Some (Inr tr', s2) \<Rightarrow> Some (Inr (tr @ tr'), s2)))"

text \<open>
  What a call of \<^verbatim>\<open>step\<close> does that its caller can observe besides the state: the calls
  of \<^verbatim>\<open>execute\<close> and of the finish callback, in order.
\<close>

datatype event = Exec eid | Finish

text \<open>
  The first two phases of \<^verbatim>\<open>step\<close>, lines 191 to 205: the spawned objects are added
  to the table and the queue is emptied, then the deleted objects are purged and their
  queue is emptied.
\<close>

definition apply_queues :: "'w state \<Rightarrow> (unit, 'w) outcome" where
  "apply_queues s =
     (case promote_all (spawnedObjs s) s of
        (Inl e, s1) \<Rightarrow> (Inl e, s1)
      | (Inr u, s1) \<Rightarrow>
          (case purge_all (deletedObjs s1) (s1\<lparr>spawnedObjs := []\<rparr>) of
             (Inl e, s2) \<Rightarrow> (Inl e, s2)
           | (Inr u, s2) \<Rightarrow> (Inr (), s2\<lparr>deletedObjs := []\<rparr>)))"

text \<open>The third phase, lines 207 to 214: \<open>i\<close> starts at \<^verbatim>\<open>this.instances.length - 1\<close>.\<close>

definition traverse :: "'w collab \<Rightarrow> nat \<Rightarrow> 'w state \<Rightarrow> (eid list, 'w) outcome option" where
  "traverse C n s = exec_levels C n (length (instances s)) s"

text \<open>\<^verbatim>\<open>step\<close>, lines 186 to 219.\<close>

definition step :: "'w collab \<Rightarrow> nat \<Rightarrow> 'w state \<Rightarrow> (event list, 'w) outcome option" where
  "step C n s =
     (if terminated s then Some (Inr [], s)
      else (case apply_queues s of
              (Inl e, s2) \<Rightarrow> Some (Inl e, s2)
            | (Inr u, s2) \<Rightarrow>
                (case traverse C n s2 of
                   None \<Rightarrow> None
                 | Some (Inl e, s3) \<Rightarrow> Some (Inl e, s3)
                 | Some (Inr tr, s3) \<Rightarrow>
                     if terminated s3
                     then Some (Inr (map Exec tr @ [Finish]), finishFunc C s3)
                     else Some (Inr (map Exec tr), s3))))"

subsection \<open>The executor steps of a tick\<close>







subsection \<open>Prototypes and spawning\<close>

text \<open>
  The shapes of a call of \<^verbatim>\<open>defineObject\<close> that the body tells apart by
  \<^verbatim>\<open>arguments.length\<close>: \<^verbatim>\<open>(name, initParams, script)\<close>, \<^verbatim>\<open>(name, script)\<close>, and any other
  number of arguments.
\<close>

datatype def_call = Def3 "string list" fnref | Def2 fnref | DefOther

text \<open>
  The read \<^verbatim>\<open>this.objects[name]\<close>: the registered template, or else the member of
  \<^verbatim>\<open>Object.prototype\<close> of that name (given by what its \<^verbatim>\<open>.name\<close> reads as), or else
  \<^verbatim>\<open>undefined\<close>.
\<close>

datatype slot = Own eid | Inherited string

definition lookup_object :: "string \<Rightarrow> 'w state \<Rightarrow> slot option" where
  "lookup_object nm s =
     (case objects s nm of
        Some p \<Rightarrow> Some (Own p)
      | None \<Rightarrow> map_option (\<lambda>(fname, len). Inherited fname) (map_of object_prototype nm))"

text \<open>\<^verbatim>\<open>defineObject\<close>, lines 221 to 240.\<close>

definition defineObject :: "string \<Rightarrow> def_call \<Rightarrow> 'w state \<Rightarrow> (eid, 'w) outcome" where
  "defineObject nm call s =
     (case lookup_object nm s of
        Some sl \<Rightarrow> (Inl DuplicateObjectDefinition, s)
      | None \<Rightarrow>
          (case call of
             Def3 ps sc \<Rightarrow>
               (case new_Entity (Some (boardRef s)) nm (Some sc) ps s of
                  (obj, s1) \<Rightarrow> (Inr obj, s1\<lparr>objects := (objects s1)(nm \<mapsto> obj)\<rparr>))
           | Def2 sc \<Rightarrow>
               (case new_Entity (Some (boardRef s)) nm (Some sc) [] s of
                  (obj, s1) \<Rightarrow> (Inr obj, s1\<lparr>objects := (objects s1)(nm \<mapsto> obj)\<rparr>))
           | DefOther \<Rightarrow> (Inl BadObjectDefinition, s)))"

definition isObjectDefined :: "string \<Rightarrow> 'w state \<Rightarrow> bool" where
  "isObjectDefined nm s = (lookup_object nm s \<noteq> None)"

text \<open>
  \<^verbatim>\<open>Entity.clone\<close> applied to what \<^verbatim>\<open>this.objects[name]\<close> gave. A member of
  \<^verbatim>\<open>Object.prototype\<close> has no \<^verbatim>\<open>board\<close>, \<^verbatim>\<open>script\<close> or \<^verbatim>\<open>initParams\<close>; the constructor's default
  replaces the missing \<^verbatim>\<open>initParams\<close> by \<^verbatim>\<open>[]\<close>.
\<close>

fun clone_slot :: "slot \<Rightarrow> 'w state \<Rightarrow> eid \<times> 'w state" where
  "clone_slot (Own p) s = clone p s"
| "clone_slot (Inherited fname) s = new_Entity None fname None [] s"

text \<open>
  \<^verbatim>\<open>spawnObject\<close>, lines 246 to 264. The value \<open>None\<close> is the \<^verbatim>\<open>undefined\<close> that the bare
  \<^verbatim>\<open>return\<close> gives. Calling \<^verbatim>\<open>parse\<close> on a \<^verbatim>\<open>null\<close> parser throws.
\<close>

definition spawnObject ::
  "'w collab \<Rightarrow> string \<Rightarrow> eid option \<Rightarrow> val list \<Rightarrow> 'w state \<Rightarrow> (eid option, 'w) outcome" where
  "spawnObject C nm par initArgs s =
     (case lookup_object nm s of
        None \<Rightarrow> (Inr None, s)
      | Some sl \<Rightarrow>
          (let s1 = (case par of
                       None \<Rightarrow> s
                     | Some q \<Rightarrow>
                         if length (instances s) \<le> depth (heap s q) + 1
                         then s\<lparr>instances := instances s @ [ []]\<rparr> else s)
           in case clone_slot sl s1 of
                (obj, s2) \<Rightarrow>
                  (let s3 = upd obj (\<lambda>e. e\<lparr>depth := (case par of None \<Rightarrow> 0
                                                        | Some q \<Rightarrow> depth (heap s2 q) + 1)\<rparr>) s2;
                       s4 = upd obj (\<lambda>e. e\<lparr>parent := (case par of None \<Rightarrow> Some obj
                                                         | Some q \<Rightarrow> Some q)\<rparr>) s3
                   in case parser s4 of
                        None \<Rightarrow> (Inl TypeError, s4)
                      | Some ps \<Rightarrow>
                          (case parse C ps obj s4 of
                             (x, w) \<Rightarrow>
                               (case begin_entity C obj initArgs
                                       (upd obj (\<lambda>e. e\<lparr>executor := Some x\<rparr>) (s4\<lparr>world := w\<rparr>)) of
                                  (Inl e, s5) \<Rightarrow> (Inl e, s5)
                                | (Inr u, s5) \<Rightarrow>
                                    (Inr (Some obj), s5\<lparr>spawnedObjs := spawnedObjs s5 @ [obj]\<rparr>))))))"

text \<open>\<^verbatim>\<open>getChildObjects\<close>, lines 290 to 312.\<close>

definition getChildObjects :: "eid \<Rightarrow> 'w state \<Rightarrow> eid list" where
  "getChildObjects r s =
     (if depth (heap s r) + 1 \<ge> length (instances s) then []
      else filter (\<lambda>obj. parent (heap s obj) = Some r)
             (level_order (instances s ! (depth (heap s r) + 1)))
           @ filter (\<lambda>obj. parent (heap s obj) = Some r) (spawnedObjs s))"

subsection \<open>Groups\<close>

text \<open>
  Modelled from the spec: the classes \<^verbatim>\<open>Group\<close> and \<^verbatim>\<open>GroupStore\<close> (module \<^verbatim>\<open>./group\<close>) are
  missing. The spec describes a mapping from group names to ordered membership sets,
  whose member add and remove keep the set free of duplicate entries: \<open>addEntity\<close>
  appends an entity that is not yet a member, \<open>removeEntity\<close> takes the entity out, and
  defining a group that exists changes nothing.
\<close>

definition addEntity :: "eid \<Rightarrow> eid list \<Rightarrow> eid list" where
  "addEntity r ms = (if r \<in> set ms then ms else ms @ [r])"

definition removeEntity :: "eid \<Rightarrow> eid list \<Rightarrow> eid list" where
  "removeEntity r ms = removeAll r ms"

definition defineGroup :: "string \<Rightarrow> 'w state \<Rightarrow> 'w state" where
  "defineGroup g s =
     (case groupStore s g of
        Some ms \<Rightarrow> s
      | None \<Rightarrow> s\<lparr>groupStore := (groupStore s)(g \<mapsto> [])\<rparr>)"

definition isGroupDefined :: "string \<Rightarrow> 'w state \<Rightarrow> bool" where
  "isGroupDefined g s = (groupStore s g \<noteq> None)"

text \<open>\<^verbatim>\<open>addObjectToGroup\<close>, lines 322 to 329.\<close>

definition addObjectToGroup :: "string \<Rightarrow> eid \<Rightarrow> 'w state \<Rightarrow> 'w state" where
  "addObjectToGroup g r s =
     (case groupStore s g of
        None \<Rightarrow> s
      | Some ms \<Rightarrow>
          upd r (\<lambda>e. e\<lparr>groups := groups e @ [g]\<rparr>)
            (s\<lparr>groupStore := (groupStore s)(g \<mapsto> addEntity r ms)\<rparr>))"

text \<open>\<^verbatim>\<open>removeObjectFromGroup\<close>, lines 331 to 337.\<close>

definition removeObjectFromGroup :: "string \<Rightarrow> eid \<Rightarrow> 'w state \<Rightarrow> 'w state" where
  "removeObjectFromGroup g r s =
     (case groupStore s g of
        None \<Rightarrow> s
      | Some ms \<Rightarrow>
          upd r (\<lambda>e. e\<lparr>groups := splice1 (indexOf (groups e) g) (groups e)\<rparr>)
            (s\<lparr>groupStore := (groupStore s)(g \<mapsto> removeEntity r ms)\<rparr>))"

text \<open>
  \<^verbatim>\<open>removeObjectFromAllGroups\<close>, lines 339 to 343: the loop counts \<open>i\<close> down and reads
  \<^verbatim>\<open>entity.groups[i]\<close> from the list as it is at that moment; an index beyond the list
  reads \<^verbatim>\<open>undefined\<close>, which names no group.
\<close>

fun removeFromAll_loop :: "nat \<Rightarrow> eid \<Rightarrow> 'w state \<Rightarrow> 'w state" where
  "removeFromAll_loop 0 r s = s"
| "removeFromAll_loop (Suc i) r s =
     removeFromAll_loop i r
       (if i < length (groups (heap s r))
        then removeObjectFromGroup (groups (heap s r) ! i) r s else s)"

definition removeObjectFromAllGroups :: "eid \<Rightarrow> 'w state \<Rightarrow> 'w state" where
  "removeObjectFromAllGroups r s = removeFromAll_loop (length (groups (heap s r))) r s"

text \<open>\<^verbatim>\<open>getObjectsInGroup\<close>, lines 345 to 351; \<open>None\<close> is \<^verbatim>\<open>null\<close>.\<close>

definition getObjectsInGroup :: "string \<Rightarrow> 'w state \<Rightarrow> eid list option" where
  "getObjectsInGroup g s = groupStore s g"

subsection \<open>Removal and replacement\<close>

text \<open>
  Lines 273 to 279 of \<^verbatim>\<open>removeObject\<close>: what a call does after the loop over the
  children, and all that a call without the \<^verbatim>\<open>recursive\<close> argument does.
\<close>

definition removeObject_self :: "eid \<Rightarrow> 'w state \<Rightarrow> 'w state" where
  "removeObject_self r s =
     (let s1 = upd r (\<lambda>e. e\<lparr>locked := True, ended := True, cycleEnded := True\<rparr>) s;
          s2 = destroyAdoptions r s1;
          s3 = removeObjectFromAllGroups r s2
      in s3\<lparr>deletedObjs := deletedObjs s3 @ [r]\<rparr>)"

text \<open>
  \<^verbatim>\<open>removeObject\<close>, lines 266 to 280. The call inside the loop is
  \<^verbatim>\<open>this.removeObject(child)\<close>, with no second argument.
\<close>

definition removeObject :: "eid \<Rightarrow> bool \<Rightarrow> 'w state \<Rightarrow> 'w state" where
  "removeObject r recursive s =
     removeObject_self r
       (if recursive then fold (\<lambda>child. removeObject_self child) (getChildObjects r s) s else s)"

text \<open>
  \<^verbatim>\<open>replaceObject\<close>, lines 282 to 288. Reading \<^verbatim>\<open>.name\<close> of \<^verbatim>\<open>undefined\<close> throws.
\<close>

definition replaceObject ::
  "'w collab \<Rightarrow> eid \<Rightarrow> string \<Rightarrow> val list \<Rightarrow> 'w state \<Rightarrow> (unit, 'w) outcome" where
  "replaceObject C target newName initArgs s =
     (case lookup_object newName s of
        None \<Rightarrow> (Inl TypeError, s)
      | Some sl \<Rightarrow>
          (case spawnObject C (case sl of Own p \<Rightarrow> name (heap s p) | Inherited fname \<Rightarrow> fname)
                  (parent (heap s target)) initArgs s of
             (Inl e, s1) \<Rightarrow> (Inl e, s1)
           | (Inr newObject, s1) \<Rightarrow>
               (Inr (), removeObject target False
                  (fold (\<lambda>child. upd child (\<lambda>e. e\<lparr>parent := newObject\<rparr>))
                     (getChildObjects target s1) s1))))"

definition terminate :: "'w state \<Rightarrow> 'w state" where
  "terminate s = s\<lparr>terminated := True\<rparr>"


subsection \<open>Starting the board\<close>

text \<open>
  The execution loop of \<^verbatim>\<open>start\<close>, lines 180 to 182: \<^verbatim>\<open>while (!this.terminated) this.step()\<close>;
  \<open>k\<close> bounds its iterations.
\<close>

fun auto_loop :: "'w collab \<Rightarrow> nat \<Rightarrow> nat \<Rightarrow> 'w state \<Rightarrow> (unit, 'w) outcome option" where
  "auto_loop C n 0 s = None"
| "auto_loop C n (Suc k) s =
     (if terminated s then Some (Inr (), s)
      else (case step C n s of
              None \<Rightarrow> None
            | Some (Inl e, s1) \<Rightarrow> Some (Inl e, s1)
            | Some (Inr tr, s1) \<Rightarrow> auto_loop C n k s1))"

text \<open>
  \<^verbatim>\<open>start\<close>, lines 161 to 184: the setup callback runs, the board becomes the root entity
  with the run script, and its bucket \<^verbatim>\<open>_board\<close> at level 0 is set to the board alone.
\<close>

definition start :: "'w collab \<Rightarrow> nat \<Rightarrow> 'w state \<Rightarrow> (unit, 'w) outcome option" where
  "start C n s =
     (case setupFunc C s of
        (Inl e, s1) \<Rightarrow> Some (Inl e, s1)
      | (Inr u, s1) \<Rightarrow>
          (let b = boardRef s1;
               s2 = upd b (\<lambda>e. e\<lparr>script := Some (runScript s1), depth := 0, parent := None\<rparr>) s1
           in case parser s2 of
                None \<Rightarrow> Some (Inl TypeError, s2)
              | Some ps \<Rightarrow>
                  (case parse C ps b s2 of
                     (x, w) \<Rightarrow>
                       (case begin_entity C b []
                               (upd b (\<lambda>e. e\<lparr>executor := Some x\<rparr>) (s2\<lparr>world := w\<rparr>)) of
                          (Inl e, s3) \<Rightarrow> Some (Inl e, s3)
                        | (Inr u, s3) \<Rightarrow>
                            (case instances s3 of
                               [] \<Rightarrow> Some (Inl TypeError, s3)
                             | lvl # lvls \<Rightarrow>
                                 (let s4 = s3\<lparr>instances := put_bucket ''_board'' [b] lvl # lvls\<rparr>
                                  in if autoStep s4 then auto_loop C n n s4
                                     else Some (Inr (), s4)))))))"

section \<open>The operations as a whole\<close>

text \<open>
  The operations of \<^verbatim>\<open>Entity\<close> and \<^verbatim>\<open>Board\<close> that change the state, as one datatype, so
  that a statement can speak of every operation. \<open>apply_op\<close> gives the state in which the
  call ends, whether it returned or threw, and \<open>None\<close> when a loop exceeded its bound.
  (\<^verbatim>\<open>setup\<close> and \<^verbatim>\<open>finish\<close> only store the callbacks that are the parameters \<open>setupFunc\<close> and
  \<open>finishFunc\<close> here; the other methods are queries. Class \<^verbatim>\<open>World\<close> forwards \<^verbatim>\<open>start\<close> and
  \<^verbatim>\<open>step\<close> to its active board.)
\<close>

datatype op =
    Begin eid "val list"
  | GotoLabel eid string "val list"
  | Execute eid
  | DestroyAdoptions eid
  | Configure bool pref
  | Run fnref
  | Start
  | Step
  | DefineObject string def_call
  | SpawnObject string "eid option" "val list"
  | RemoveObject eid bool
  | ReplaceObject eid string "val list"
  | DefineGroup string
  | AddObjectToGroup string eid
  | RemoveObjectFromGroup string eid
  | RemoveObjectFromAllGroups eid
  | Terminate

fun apply_op :: "'w collab \<Rightarrow> nat \<Rightarrow> op \<Rightarrow> 'w state \<Rightarrow> 'w state option" where
  "apply_op C n (Begin r args) s = Some (snd (begin_entity C r args s))"
| "apply_op C n (GotoLabel r l args) s = Some (snd (gotoLabel C r l args s))"
| "apply_op C n (Execute r) s = map_option snd (execute C n r s)"
| "apply_op C n (DestroyAdoptions r) s = Some (destroyAdoptions r s)"
| "apply_op C n (Configure a p) s = Some (configure a p s)"
| "apply_op C n (Run sc) s = Some (run sc s)"
| "apply_op C n Start s = map_option snd (start C n s)"
| "apply_op C n Step s = map_option snd (step C n s)"
| "apply_op C n (DefineObject nm call) s = Some (snd (defineObject nm call s))"
| "apply_op C n (SpawnObject nm par args) s = Some (snd (spawnObject C nm par args s))"
| "apply_op C n (RemoveObject r recursive) s = Some (removeObject r recursive s)"
| "apply_op C n (ReplaceObject r nm args) s = Some (snd (replaceObject C r nm args s))"
| "apply_op C n (DefineGroup g) s = Some (defineGroup g s)"
| "apply_op C n (AddObjectToGroup g r) s = Some (addObjectToGroup g r s)"
| "apply_op C n (RemoveObjectFromGroup g r) s = Some (removeObjectFromGroup g r s)"
| "apply_op C n (RemoveObjectFromAllGroups r) s = Some (removeObjectFromAllGroups r s)"
| "apply_op C n Terminate s = Some (terminate s)"

section \<open>Notions used in the statements\<close>

subsection \<open>The instance table during a traversal\<close>

text \<open>
  \<open>table_kept s s'\<close>: the levels of the instance table of \<open>s\<close> are still there, unchanged,
  in \<open>s'\<close> (which may have more levels). \<open>keeps_table C\<close>: no call of an executor changes an
  existing level. The source changes existing levels in \<^verbatim>\<open>step\<close> and \<^verbatim>\<open>start\<close> only, and
  \<^verbatim>\<open>spawnObject\<close> appends an empty level, so this is what holds of executors whose scripts use
  the board's operations and do not call \<^verbatim>\<open>step\<close> or \<^verbatim>\<open>start\<close> themselves.
\<close>

definition table_kept :: "'w state \<Rightarrow> 'w state \<Rightarrow> bool" where
  "table_kept s s' \<longleftrightarrow> take (length (instances s)) (instances s') = instances s"

definition keeps_table :: "'w collab \<Rightarrow> bool" where
  "keeps_table C \<longleftrightarrow>
     (\<forall>x t. table_kept t (snd (xstep C x t))) \<and> (\<forall>x j t. table_kept t (execJumpOp C x j t))"

text \<open>
  \<open>grows s s'\<close>: from \<open>s\<close> to \<open>s'\<close> the levels of the table are kept, no object
  disappears, and no entity leaves the spawn queue. This relates the state before to the
  state after any sequence of the board's operations other than \<^verbatim>\<open>step\<close> and \<^verbatim>\<open>start\<close>, which
  are the only ones that write to an existing level or empty the spawn queue.
  \<open>collab_grows C\<close>: the calls of executors and of the finish callback are of this kind.
  \<open>span C s s' cs\<close>: the calls \<open>cs\<close> of executors are made between \<open>s\<close> and \<open>s'\<close>.
\<close>

definition grows :: "'w state \<Rightarrow> 'w state \<Rightarrow> bool" where
  "grows s s' \<longleftrightarrow>
     table_kept s s' \<and> nextRef s \<le> nextRef s' \<and> set (spawnedObjs s) \<subseteq> set (spawnedObjs s')"


definition span :: "'w collab \<Rightarrow> 'w state \<Rightarrow> 'w state \<Rightarrow> (xref \<times> 'w state) list \<Rightarrow> bool" where
  "span C s s' cs \<longleftrightarrow>
     grows s s' \<and> (\<forall>c \<in> set cs. grows s (snd c) \<and> grows (snd (xstep C (fst c) (snd c))) s')"

text \<open>The entities of the table in the order in which the traversal visits them, deepest level first.\<close>

definition schedule :: "'w state \<Rightarrow> eid list" where
  "schedule s = concat (map level_order (rev (instances s)))"

text \<open>
  All entries of the table; \<open>refs_below s\<close> says that every entity in the table or in the
  spawn queue is an object that exists; \<open>in_table r s\<close> says that \<open>r\<close> is in the bucket of
  its own depth and name.
\<close>

definition table_list :: "'w state \<Rightarrow> eid list" where
  "table_list s = concat (map (\<lambda>lvl. concat (map snd lvl)) (instances s))"


definition in_table :: "eid \<Rightarrow> 'w state \<Rightarrow> bool" where
  "in_table r s \<longleftrightarrow>
     depth (heap s r) < length (instances s) \<and>
     r \<in> set (bucket_of (instances s ! depth (heap s r)) (name (heap s r)))"

subsection \<open>Locked entities\<close>

text \<open>
  \<open>lock_inv\<close> is the invariant that a locked entity is ended. \<open>held r j s\<close> says that \<open>r\<close>
  is an existing entity that is locked and ended and whose pending jump is \<open>j\<close>.
  \<open>collab_preserves P C\<close> says that no call of a collaborator destroys the property \<open>P\<close>.
\<close>

definition lock_inv :: "'w state \<Rightarrow> bool" where
  "lock_inv s \<longleftrightarrow> (\<forall>r. locked (heap s r) \<longrightarrow> ended (heap s r))"

definition held :: "eid \<Rightarrow> jump option \<Rightarrow> 'w state \<Rightarrow> bool" where
  "held r j s \<longleftrightarrow>
     r < nextRef s \<and> locked (heap s r) \<and> ended (heap s r) \<and> pendingJumpOp (heap s r) = j"

definition collab_preserves :: "('w state \<Rightarrow> bool) \<Rightarrow> 'w collab \<Rightarrow> bool" where
  "collab_preserves P C \<longleftrightarrow>
     (\<forall>x t. P t \<longrightarrow> P (snd (xstep C x t))) \<and>
     (\<forall>x j t. P t \<longrightarrow> P (execJumpOp C x j t)) \<and>
     (\<forall>t. P t \<longrightarrow> P (finishFunc C t)) \<and>
     (\<forall>t. P t \<longrightarrow> P (snd (setupFunc C t)))"

text \<open>
  The writes that the source makes to the store, as closure conditions on a property of
  states: a write to fields other than \<^verbatim>\<open>locked\<close>, \<^verbatim>\<open>ended\<close> and \<^verbatim>\<open>pendingJumpOp\<close>, a write
  outside the store, a new entity, the three assignments of \<^verbatim>\<open>removeObject\<close>, the three of
  \<^verbatim>\<open>gotoLabel\<close> on an entity that is not locked, and the reset of the pending jump of an
  entity that was not ended when \<^verbatim>\<open>execute\<close> tested it.
\<close>

definition keeps_flags :: "(entity \<Rightarrow> entity) \<Rightarrow> bool" where
  "keeps_flags f \<longleftrightarrow>
     (\<forall>e. locked (f e) = locked e \<and> ended (f e) = ended e
          \<and> pendingJumpOp (f e) = pendingJumpOp e)"

definition stable :: "('w state \<Rightarrow> bool) \<Rightarrow> bool" where
  "stable P \<longleftrightarrow>
     (\<forall>s r f. P s \<longrightarrow> keeps_flags f \<longrightarrow> P (upd r f s)) \<and>
     (\<forall>s s'. P s \<longrightarrow> heap s' = heap s \<longrightarrow> nextRef s' = nextRef s \<longrightarrow> P s') \<and>
     (\<forall>s b nm sc ps. P s \<longrightarrow> P (snd (new_Entity b nm sc ps s))) \<and>
     (\<forall>s r. P s \<longrightarrow> P (upd r (\<lambda>e. e\<lparr>locked := True, ended := True, cycleEnded := True\<rparr>) s)) \<and>
     (\<forall>s r jp. P s \<longrightarrow> \<not> locked (heap s r) \<longrightarrow>
        P (upd r (\<lambda>e. e\<lparr>pendingJumpOp := jp, ended := False, cycleEnded := False\<rparr>) s)) \<and>
     (\<forall>s t r. P s \<longrightarrow> \<not> ended (heap s r) \<longrightarrow> P t \<longrightarrow>
        P (upd r (\<lambda>e. e\<lparr>pendingJumpOp := None\<rparr>) t))"

section \<open>Example boards\<close>

text \<open>
  The simplest collaborators: the executor of an entity is named by the entity's own
  reference, every script has the one label \<^verbatim>\<open>init\<close>, a jump changes nothing that the
  board can see, and every script is exhausted at once, so that \<^verbatim>\<open>step\<close> of an executor
  returns \<^verbatim>\<open>false\<close> and touches nothing. The callbacks do nothing.
\<close>

definition idle_collab :: "unit collab" where
  "idle_collab =
     \<lparr>parse = (\<lambda>p r s. (r, world s)), hasEnabled = (\<lambda>x l w. l = ''init''),
      execJumpOp = (\<lambda>x j s. s), xstep = (\<lambda>x s. (False, s)), finishFunc = (\<lambda>s. s),
      setupFunc = (\<lambda>s. (Inr (), s))\<rparr>"

text \<open>Scripts that call \<^verbatim>\<open>terminate\<close>, and scripts that spawn an \<^verbatim>\<open>a\<close> under their own entity.\<close>

definition term_collab :: "unit collab" where
  "term_collab = idle_collab\<lparr>xstep := (\<lambda>x s. (False, terminate s))\<rparr>"



text \<open>The state in which a call ended (the state it started in, when the bound was exceeded).\<close>

definition state_after :: "('a, 'w) outcome option \<Rightarrow> 'w state \<Rightarrow> 'w state" where
  "state_after res s = (case res of Some (out, s') \<Rightarrow> s' | None \<Rightarrow> s)"

text \<open>The \<^verbatim>\<open>ended\<close> flag of entity \<open>r\<close> in the state that a call returned.\<close>

definition ended_after :: "eid \<Rightarrow> ('a, 'w) outcome option \<Rightarrow> bool option" where
  "ended_after r res = map_option (\<lambda>(out, s'). ended (heap s' r)) res"

text \<open>
  A configured board (reference 0), then with a prototype \<^verbatim>\<open>a\<close> (reference 1), then with
  a root instance of \<^verbatim>\<open>a\<close> (reference 2) that has been spawned and not yet promoted.
\<close>

definition demo0 :: "unit state" where
  "demo0 = configure False 0 (new_Board ())"

definition demo1 :: "unit state" where
  "demo1 = snd (defineObject ''a'' (Def2 7) demo0)"

definition demo2 :: "unit state" where
  "demo2 = snd (spawnObject idle_collab ''a'' None [] demo1)"

text \<open>The root instance removed before its first tick, and after its first tick.\<close>

definition demo2_removed :: "unit state" where
  "demo2_removed = removeObject 2 False demo2"


text \<open>
  Two root instances of \<^verbatim>\<open>a\<close> (references 2 and 3): spawned; after a tick in which every
  script calls \<^verbatim>\<open>terminate\<close>; after a tick of idle scripts; then with entity 2 removed
  twice; then after the next tick.
\<close>

definition dup1 :: "unit state" where
  "dup1 = snd (spawnObject idle_collab ''a'' None [] demo2)"

definition dup1_done :: "unit state" where
  "dup1_done = state_after (step term_collab 3 dup1) dup1"

definition dup2 :: "unit state" where
  "dup2 = state_after (step idle_collab 3 dup1) dup1"

definition dup3 :: "unit state" where
  "dup3 = removeObject 2 False (removeObject 2 False dup2)"

definition dup4 :: "unit state" where
  "dup4 = state_after (step idle_collab 3 dup3) dup3"



text \<open>
  A chain: entity 3 is spawned under the root 2 and entity 4 under entity 3; after a tick
  all three are in the table; then the root is removed with \<^verbatim>\<open>recursive\<close> set.
\<close>

definition chain1 :: "unit state" where
  "chain1 = snd (spawnObject idle_collab ''a'' (Some 2) [] demo2)"

definition chain2 :: "unit state" where
  "chain2 = snd (spawnObject idle_collab ''a'' (Some 3) [] chain1)"

definition chain3 :: "unit state" where
  "chain3 = state_after (step idle_collab 3 chain2) chain2"

definition chain4 :: "unit state" where
  "chain4 = removeObject 2 True chain3"

text \<open>
  Groups \<^verbatim>\<open>g\<close> and \<^verbatim>\<open>h\<close> are defined, the root instance joins \<^verbatim>\<open>h\<close>, and is then removed
  from \<^verbatim>\<open>g\<close>, of which it is no member.
\<close>

definition grp0 :: "unit state" where
  "grp0 = defineGroup ''h'' (defineGroup ''g'' demo2)"

definition grp1 :: "unit state" where
  "grp1 = addObjectToGroup ''h'' 2 grp0"

definition grp2 :: "unit state" where
  "grp2 = removeObjectFromGroup ''g'' 2 grp1"

text \<open>
  Shorthands for writing the example states out: an entity of the example board, the
  example board around a store, the store with the board and the prototype, and an
  instance of \<^verbatim>\<open>a\<close> whose executor carries its own reference.
\<close>

definition ent ::
  "nat \<Rightarrow> string \<Rightarrow> fnref option \<Rightarrow> nat \<Rightarrow> eid option \<Rightarrow> bool \<Rightarrow> jump option \<Rightarrow> xref option \<Rightarrow> entity" where
  "ent i nm sc d par fl pj x =
     \<lparr>id_num = i, board = Some 0, name = nm, script = sc, initParams = [],
      depth = d, parent = par, variables = [], adoptions = [], groups = [],
      ended = fl, cycleEnded = fl, locked = fl, pendingJumpOp = pj, executor = x\<rparr>"

definition board_of ::
  "(eid \<Rightarrow> entity) \<Rightarrow> nat \<Rightarrow> level list \<Rightarrow> eid list \<Rightarrow> eid list \<Rightarrow> bool \<Rightarrow> unit state" where
  "board_of h n ins sp del tm =
     \<lparr>heap = h, nextRef = n, idCounter = n, boardRef = 0, runScript = empty_fn,
      objects = [''a'' \<mapsto> Suc 0], autoStep = False, parser = Some 0, instances = ins,
      spawnedObjs = sp, deletedObjs = del, groupStore = Map.empty,
      terminated = tm, destroyed = [], world = ()\<rparr>"

abbreviation store1 :: "eid \<Rightarrow> entity" where
  "store1 \<equiv> (\<lambda>r. blank)(0 := ent 0 ''_board'' None 0 None False None None,
                        Suc 0 := ent 1 ''a'' (Some 7) 0 None False None None)"

abbreviation init_jump :: "jump option" where
  "init_jump \<equiv> Some (JumpOp ''init'' [])"

abbreviation inst :: "nat \<Rightarrow> nat \<Rightarrow> eid \<Rightarrow> bool \<Rightarrow> jump option \<Rightarrow> entity" where
  "inst i d p fl pj \<equiv> ent i ''a'' (Some 7) d (Some p) fl pj (Some i)"

section \<open>Properties\<close>

subsection \<open>The example boards, written out\<close>

lemma proto_a: "map_of object_prototype ''a'' = None"
  by (simp add: object_prototype_def)

lemma array_index_a: "array_index ''a'' = None"
  by (simp add: array_index_def digit_of_def)

lemma js_keys_Nil: "js_keys [] = []"
  by (simp add: js_keys_def)

lemma js_keys_a: "js_keys [(''a'', b)] = [''a'']"
  by (simp add: js_keys_def array_index_a)

lemma js_keys_example:
  "js_keys [(''b'', [1]), (''10'', [2]), (''a'', [3]), (''2'', [4])] = [''2'', ''10'', ''b'', ''a'']"
  by (simp add: js_keys_def array_index_def digit_of_def)

lemma set_js_keys: "set (js_keys lvl) = fst ` set lvl"
  by (auto simp add: js_keys_def)

lemma level_order_Nil: "level_order [] = []"
  by (simp add: level_order_def js_keys_Nil)

lemma level_order_a: "level_order [(''a'', b)] = b"
  by (simp add: level_order_def js_keys_a bucket_of_def)

lemmas ops = configure_def new_Board_def new_Entity_def
      generateId_def upd_def defineObject_def spawnObject_def clone_def begin_entity_def
      gotoLabel_def idle_collab_def Let_def ent_def board_of_def fun_eq_iff
      lookup_object_def proto_a

lemmas tick_ops = state_after_def step_def apply_queues_def promote_def purge_def
      traverse_def execute_def apply_pending_def eval_nat_numeral js_keys_Nil js_keys_a

lemmas rm_ops = removeObject_def removeObject_self_def destroyAdoptions_def removeObjectFromAllGroups_def
  getChildObjects_def indexOf_def splice1_def level_order_Nil level_order_a

lemma demo1_eq: "demo1 = board_of store1 2 [ []] [] [] False"
  by (simp add: demo1_def demo0_def ops)

lemma demo2_eq: "demo2 = board_of (store1(2 := inst 2 0 2 False init_jump)) 3 [ []] [2] [] False"
  by (simp add: demo2_def demo1_eq ops)

lemma demo2_removed_eq: "demo2_removed = board_of (store1(2 := inst 2 0 2 True init_jump)) 3 [ []] [2] [2] False"
  by (simp add: demo2_removed_def demo2_eq ops rm_ops)


lemma dup1_eq: "dup1 = board_of (store1(2 := inst 2 0 2 False init_jump, 3 := inst 3 0 3 False init_jump)) 4 [ []] [2, 3] [] False"
  by (simp add: dup1_def demo2_eq ops)

lemma dup1_step: "step term_collab 3 dup1 = Some (Inr [Exec 2, Exec 3, Finish],
    board_of (store1(2 := inst 2 0 2 False None, 3 := inst 3 0 3 False None)) 4 [ [(''a'', [2, 3])]] [] [] True)"
  by (simp add: dup1_eq ops tick_ops term_collab_def terminate_def)

lemma dup1_done_eq: "dup1_done = board_of (store1(2 := inst 2 0 2 False None, 3 := inst 3 0 3 False None)) 4 [ [(''a'', [2, 3])]] [] [] True"
  by (simp add: dup1_done_def dup1_step state_after_def)

lemma dup2_eq: "dup2 = board_of (store1(2 := inst 2 0 2 False None, 3 := inst 3 0 3 False None)) 4 [ [(''a'', [2, 3])]] [] [] False"
  by (simp add: dup2_def dup1_eq ops tick_ops)

lemma dup3_eq: "dup3 = board_of (store1(2 := inst 2 0 2 True None, 3 := inst 3 0 3 False None)) 4 [ [(''a'', [2, 3])]] [] [2, 2] False"
  by (simp add: dup3_def dup2_eq ops rm_ops)

lemma dup4_step: "step idle_collab 3 dup3 = Some (Inr [],
   board_of (store1(2 := inst 2 0 2 True None, 3 := inst 3 0 3 False None)) 4 [ [(''a'', [])]] [] [] False)"
  by (simp add: dup3_eq ops tick_ops rm_ops)




lemma chain1_eq: "chain1 = board_of (store1(2 := inst 2 0 2 False init_jump, 3 := inst 3 1 2 False init_jump)) 4 [ [], []] [2, 3] [] False"
  by (simp add: chain1_def demo2_eq ops)

lemma chain2_eq: "chain2 = board_of (store1(2 := inst 2 0 2 False init_jump, 3 := inst 3 1 2 False init_jump,
     4 := inst 4 2 3 False init_jump)) 5 [ [], [], []] [2, 3, 4] [] False"
  by (simp add: chain2_def chain1_eq ops)

lemma chain3_eq: "chain3 = board_of (store1(2 := inst 2 0 2 False None, 3 := inst 3 1 2 False None,
     4 := inst 4 2 3 False None)) 5 [ [(''a'', [2])], [(''a'', [3])], [(''a'', [4])]] [] [] False"
  by (simp add: chain3_def chain2_eq ops tick_ops)

lemma chain3_children: "getChildObjects 2 chain3 = [3]" "getChildObjects 3 chain3 = [4]"
  by (simp_all add: chain3_eq getChildObjects_def board_of_def ent_def level_order_a)

lemma chain4_eq: "chain4 = board_of (store1(2 := inst 2 0 2 True None, 3 := inst 3 1 2 True None,
     4 := inst 4 2 3 False None)) 5 [ [(''a'', [2])], [(''a'', [3])], [(''a'', [4])]] [] [3, 2] False"
  by (simp add: chain4_def chain3_eq ops rm_ops)

lemma grp1_eq: "grp1 = (board_of (store1(2 := (inst 2 0 2 False init_jump)\<lparr>groups := [''h'']\<rparr>)) 3 [ []] [2] [] False)
     \<lparr>groupStore := [''g'' \<mapsto> [], ''h'' \<mapsto> [2]]\<rparr>"
  by (simp add: grp1_def grp0_def demo2_eq ops defineGroup_def addObjectToGroup_def addEntity_def)


lemma demo2_facts:
  "nextRef demo2 = 3" "spawnedObjs demo2 = [2]" "\<not> ended (heap demo2 2)"
  "\<not> locked (heap demo2 2)" "executor (heap demo2 2) = Some 2"
  "pendingJumpOp (heap demo2 2) = init_jump" "groupStore demo2 g = None"
  "objects demo2 ''b'' = None" "world demo2 = ()"
  by (simp_all add: demo2_eq board_of_def ent_def)

subsection \<open>Entity.execute\<close>

lemma exec_loop_last:
  "exec_loop C n r s = Some (Inr (), s') \<Longrightarrow>
   \<exists>x sp again. xstep C x sp = (again, s')
      \<and> (again \<longrightarrow> cycleEnded (heap s' r) \<or> ended (heap s' r))"
proof (induction n arbitrary: s)
  case 0
  then show ?case by simp
next
  case (Suc n)
  then show ?case
    by (auto split: option.splits prod.splits if_splits sum.splits)
qed

lemma execute_last_step:
  assumes "\<not> ended (heap s r)" and "execute C n r s = Some (Inr (), s')"
  shows "\<exists>x sp again. xstep C x sp = (again, s')
           \<and> (again \<longrightarrow> cycleEnded (heap s' r) \<or> ended (heap s' r))"
proof -
  let ?s0 = "upd r (\<lambda>e. e\<lparr>cycleEnded := False\<rparr>) s"
  have ne: "\<not> ended (heap ?s0 r)"
    using assms(1) by (simp add: upd_def)
  obtain out s1 where ap: "apply_pending C r ?s0 = (out, s1)"
    by (cases "apply_pending C r ?s0")
  show ?thesis
  proof (cases out)
    case (Inl e)
    with assms(2) ne ap show ?thesis
      by (simp add: execute_def Let_def)
  next
    case (Inr u)
    with assms(2) ne ap have "exec_loop C n r s1 = Some (Inr (), s')"
      by (simp add: execute_def Let_def)
    then show ?thesis by (rule exec_loop_last)
  qed
qed

lemma apply_pending_ended:
  assumes "\<forall>x j t. ended (heap (execJumpOp C x j t) r) = ended (heap t r)"
  shows "ended (heap (snd (apply_pending C r s)) r) = ended (heap s r)"
  using assms by (simp add: apply_pending_def upd_def split: option.splits)

lemma exec_loop_ended:
  assumes "\<forall>x t. ended (heap (snd (xstep C x t)) r) = ended (heap t r)"
    and "\<forall>x j t. ended (heap (execJumpOp C x j t) r) = ended (heap t r)"
  shows "exec_loop C n r s = Some (out, s') \<Longrightarrow> ended (heap s' r) = ended (heap s r)"
proof (induction n arbitrary: s)
  case 0
  then show ?case by simp
next
  case (Suc n)
  show ?case
  proof (cases "executor (heap s r)")
    case None
    with Suc.prems show ?thesis by simp
  next
    case (Some x)
    obtain again s1 where xs: "xstep C x s = (again, s1)" by (cases "xstep C x s")
    have e1: "ended (heap s1 r) = ended (heap s r)"
      using assms(1) xs by (metis snd_conv)
    show ?thesis
    proof (cases "\<not> again \<or> cycleEnded (heap s1 r) \<or> ended (heap s1 r)")
      case True
      with Suc.prems Some xs have "s' = s1" by (auto split: if_splits)
      with e1 show ?thesis by simp
    next
      case False
      obtain o2 s2 where ap: "apply_pending C r s1 = (o2, s2)" by (cases "apply_pending C r s1")
      have e2: "ended (heap s2 r) = ended (heap s1 r)"
        using apply_pending_ended [OF assms(2), of s1] ap by simp
      show ?thesis
      proof (cases o2)
        case (Inl e)
        with Suc.prems Some xs False ap have "s' = s2" by simp
        with e1 e2 show ?thesis by simp
      next
        case (Inr u)
        with Suc.prems Some xs False ap have "exec_loop C n r s2 = Some (out, s')" by simp
        then have "ended (heap s' r) = ended (heap s2 r)" by (rule Suc.IH)
        with e1 e2 show ?thesis by simp
      qed
    qed
  qed
qed

lemma execute_ended:
  assumes "\<forall>x t. ended (heap (snd (xstep C x t)) r) = ended (heap t r)"
    and "\<forall>x j t. ended (heap (execJumpOp C x j t) r) = ended (heap t r)"
    and "execute C n r s = Some (out, s')"
  shows "ended (heap s' r) = ended (heap s r)"
proof -
  let ?s0 = "upd r (\<lambda>e. e\<lparr>cycleEnded := False\<rparr>) s"
  have e0: "ended (heap ?s0 r) = ended (heap s r)" by (simp add: upd_def)
  show ?thesis
  proof (cases "ended (heap ?s0 r)")
    case True
    with assms(3) have "s' = ?s0" by (simp add: execute_def Let_def)
    with e0 show ?thesis by simp
  next
    case False
    obtain o1 s1 where ap: "apply_pending C r ?s0 = (o1, s1)" by (cases "apply_pending C r ?s0")
    have e1: "ended (heap s1 r) = ended (heap ?s0 r)"
      using apply_pending_ended [OF assms(2), of ?s0] ap by simp
    show ?thesis
    proof (cases o1)
      case (Inl e)
      with assms(3) False ap have "s' = s1" by (simp add: execute_def Let_def)
      with e0 e1 show ?thesis by simp
    next
      case (Inr u)
      with assms(3) False ap have "exec_loop C n r s1 = Some (out, s')"
        by (simp add: execute_def Let_def)
      then have "ended (heap s' r) = ended (heap s1 r)" by (rule exec_loop_ended [OF assms(1,2)])
      with e0 e1 show ?thesis by simp
    qed
  qed
qed

text \<open>
  Claim C1, as the code has it. \<^verbatim>\<open>execute\<close> contains no assignment to \<^verbatim>\<open>ended\<close>. At every
  iteration of its loop, when the executor's \<^verbatim>\<open>step\<close> reports that no more work is
  available, the loop stops and the call returns with the state exactly as that call of
  \<^verbatim>\<open>step\<close> left it. When \<^verbatim>\<open>execute\<close> is invoked on an entity that is not ended and returns
  normally, the state at the return is the state in which the last call of \<^verbatim>\<open>step\<close>
  ended, and that call either reported that no more work is available or left the entity
  with \<^verbatim>\<open>cycleEnded\<close> or \<^verbatim>\<open>ended\<close> set. So the entity is ended after a natural end only if
  the executor set the flag: with an executor that never changes the flag of the entity,
  the entity is still not ended when \<^verbatim>\<open>execute\<close> has returned.
\<close>

theorem execute_returns_executor_state:
  "(executor (heap t r) = Some x \<and> xstep C x t = (False, t') \<longrightarrow>
      exec_loop C (Suc k) r t = Some (Inr (), t'))
   \<and> (\<not> ended (heap s r) \<and> execute C n r s = Some (Inr (), s') \<longrightarrow>
        (\<exists>x sp again. xstep C x sp = (again, s')
           \<and> (again \<longrightarrow> cycleEnded (heap s' r) \<or> ended (heap s' r)))
        \<and> ((\<forall>x t. ended (heap (snd (xstep C x t)) r) = ended (heap t r))
            \<and> (\<forall>x j t. ended (heap (execJumpOp C x j t) r) = ended (heap t r))
          \<longrightarrow> \<not> ended (heap s' r)))"
proof (intro conjI impI)
  assume "executor (heap t r) = Some x \<and> xstep C x t = (False, t')"
  then show "exec_loop C (Suc k) r t = Some (Inr (), t')" by simp
next
  assume a: "\<not> ended (heap s r) \<and> execute C n r s = Some (Inr (), s')"
  then show "\<exists>x sp again. xstep C x sp = (again, s')
           \<and> (again \<longrightarrow> cycleEnded (heap s' r) \<or> ended (heap s' r))"
    using execute_last_step by blast
next
  assume a: "\<not> ended (heap s r) \<and> execute C n r s = Some (Inr (), s')"
    and f: "(\<forall>x t. ended (heap (snd (xstep C x t)) r) = ended (heap t r))
            \<and> (\<forall>x j t. ended (heap (execJumpOp C x j t) r) = ended (heap t r))"
  from f a have "ended (heap s' r) = ended (heap s r)"
    using execute_ended [of C r n s "Inr ()" s'] by blast
  with a show "\<not> ended (heap s' r)" by simp
qed

theorem execute_returns_executor_state_witness:
  "executor (heap demo2 2) = Some 2 \<and> xstep idle_collab 2 demo2 = (False, demo2)
   \<and> exec_loop idle_collab 1 2 demo2 = Some (Inr (), demo2)
   \<and> \<not> ended (heap demo2 2)
   \<and> (\<exists>s'. execute idle_collab 1 2 demo2 = Some (Inr (), s') \<and> \<not> ended (heap s' 2))"
proof -
  have a: "\<not> ended (heap demo2 2)" "executor (heap demo2 2) = Some 2"
    by (simp_all add: demo2_facts)
  have x: "xstep idle_collab 2 demo2 = (False, demo2)"
    by (simp add: idle_collab_def)
  have b: "execute idle_collab 1 2 demo2 =
      Some (Inr (), upd 2 (\<lambda>e. e\<lparr>pendingJumpOp := None\<rparr>)
                      (upd 2 (\<lambda>e. e\<lparr>cycleEnded := False\<rparr>) demo2))"
    by (simp add: demo2_facts execute_def apply_pending_def upd_def idle_collab_def)
  have c: "\<forall>x t. ended (heap (snd (xstep idle_collab x t)) 2) = ended (heap t 2)"
    "\<forall>x j t. ended (heap (execJumpOp idle_collab x j t) 2) = ended (heap t 2)"
    by (simp_all add: idle_collab_def)
  note T = execute_returns_executor_state [where C = idle_collab and r = 2 and t = demo2
      and t' = demo2 and x = 2 and k = 0 and s = demo2 and n = 1
      and s' = "upd 2 (\<lambda>e. e\<lparr>pendingJumpOp := None\<rparr>) (upd 2 (\<lambda>e. e\<lparr>cycleEnded := False\<rparr>) demo2)"]
  from T a x have l: "exec_loop idle_collab 1 2 demo2 = Some (Inr (), demo2)"
    by simp
  from T a b c
  have "\<not> ended (heap (upd 2 (\<lambda>e. e\<lparr>pendingJumpOp := None\<rparr>)
                      (upd 2 (\<lambda>e. e\<lparr>cycleEnded := False\<rparr>) demo2)) 2)"
    by blast
  with a x l b show ?thesis by simp
qed

text \<open>
  Claim C1 as stated fails: on the example board the root instance is not ended, its
  executor reports that no more work is available, and the entity is still not ended
  when \<^verbatim>\<open>execute\<close> has returned.
\<close>

theorem execute_natural_end_counterexample:
  "\<not> ended (heap demo2 2) \<and> fst (xstep idle_collab 2 demo2) = False
   \<and> ended_after 2 (execute idle_collab 1 2 demo2) = Some False"
  by (simp add: demo2_facts ended_after_def execute_def apply_pending_def upd_def idle_collab_def)

subsection \<open>Board.defineObject\<close>

text \<open>
  Claim C9. Registering a prototype under a name that is already registered throws the
  duplicate-definition error and leaves the state as it was: the name still denotes the
  original template, the template is unchanged, and (on a board with a parser) spawning
  the name afterwards yields an instance with the original's name, script and parameters.
\<close>

theorem defineObject_duplicate:
  assumes "objects s nm = Some p"
  shows "defineObject nm call s = (Inl DuplicateObjectDefinition, s)
    \<and> objects (snd (defineObject nm call s)) nm = Some p
    \<and> heap (snd (defineObject nm call s)) p = heap s p
    \<and> (parser s \<noteq> None \<longrightarrow>
         (\<exists>s'. spawnObject C nm par args (snd (defineObject nm call s)) = (Inr (Some (nextRef s)), s')
            \<and> name (heap s' (nextRef s)) = name (heap s p)
            \<and> script (heap s' (nextRef s)) = script (heap s p)
            \<and> initParams (heap s' (nextRef s)) = initParams (heap s p)
            \<and> spawnedObjs s' = spawnedObjs s @ [nextRef s]))"
proof -
  have dup: "defineObject nm call s = (Inl DuplicateObjectDefinition, s)"
    using assms by (simp add: defineObject_def lookup_object_def)
  have use: "parser s \<noteq> None \<longrightarrow>
         (\<exists>s'. spawnObject C nm par args s = (Inr (Some (nextRef s)), s')
            \<and> name (heap s' (nextRef s)) = name (heap s p)
            \<and> script (heap s' (nextRef s)) = script (heap s p)
            \<and> initParams (heap s' (nextRef s)) = initParams (heap s p)
            \<and> spawnedObjs s' = spawnedObjs s @ [nextRef s])"
    using assms
    by (auto simp add: spawnObject_def lookup_object_def clone_def new_Entity_def generateId_def
        upd_def Let_def begin_entity_def gotoLabel_def split: option.splits prod.splits)
  from dup use assms show ?thesis by simp
qed

theorem defineObject_duplicate_witness:
  "objects demo1 ''a'' = Some 1
   \<and> defineObject ''a'' (Def3 [''x''] 8) demo1 = (Inl DuplicateObjectDefinition, demo1)
   \<and> script (heap (snd (defineObject ''a'' (Def3 [''x''] 8) demo1)) 1) = Some 7
   \<and> (\<exists>s'. spawnObject idle_collab ''a'' None [] (snd (defineObject ''a'' (Def3 [''x''] 8) demo1))
            = (Inr (Some 2), s')
          \<and> script (heap s' 2) = Some 7)"
proof -
  have a: "objects demo1 ''a'' = Some 1"
    by (simp add: demo1_eq board_of_def)
  have b: "parser demo1 \<noteq> None" "nextRef demo1 = 2" "script (heap demo1 1) = Some 7"
    by (simp_all add: demo1_eq board_of_def ent_def)
  from defineObject_duplicate [OF a, of "Def3 [''x''] 8" idle_collab None "[]"] a b
  show ?thesis by auto
qed

subsection \<open>Operations that are meant to do nothing\<close>

text \<open>
  The calls that return through their guard before any write: a jump on a locked entity;
  a jump to a label that the executor of the entity does not report as enabled; adding
  to, removing from and querying a group that is not defined; and spawning a name for
  which the read \<^verbatim>\<open>this.objects[name]\<close> finds nothing.
\<close>

lemma guarded_noops:
  "(locked (heap s r) \<longrightarrow> gotoLabel C r l args s = (Inr (), s))
   \<and> (executor (heap s r) = Some x \<and> \<not> hasEnabled C x l (world s) \<longrightarrow>
        gotoLabel C r l args s = (Inr (), s))
   \<and> (groupStore s g = None \<longrightarrow>
        addObjectToGroup g r s = s \<and> removeObjectFromGroup g r s = s
        \<and> getObjectsInGroup g s = None)
   \<and> (lookup_object nm s = None \<longrightarrow> spawnObject C nm par args s = (Inr None, s))"
  by (simp add: gotoLabel_def addObjectToGroup_def removeObjectFromGroup_def
      getObjectsInGroup_def spawnObject_def)

text \<open>
  The read \<^verbatim>\<open>this.objects['constructor']\<close> never finds nothing, whatever has been registered:
  a call of \<^verbatim>\<open>spawnObject\<close> with that name never takes the bare \<^verbatim>\<open>return\<close>.
\<close>

lemma spawnObject_constructor_passes_guard:
  "fst (spawnObject C ''constructor'' par args s) \<noteq> Inr None"
  by (simp add: spawnObject_def lookup_object_def object_prototype_def Let_def
      split: option.splits prod.splits sum.splits)

text \<open>
  Claim C8, the part on spawning a name that is not registered. On the example board the
  registry holds the one name \<^verbatim>\<open>a\<close> and the spawn queue the one entity 2. The call
  \<^verbatim>\<open>spawnObject('constructor', null, [])\<close> is not without effect and does not return
  \<^verbatim>\<open>undefined\<close>: the guard \<^verbatim>\<open>!this.objects[name]\<close> finds the function \<^verbatim>\<open>Object\<close> that the registry
  inherits, and the call returns a new entity (reference 3) cloned from it, named
  \<^verbatim>\<open>Object\<close>, with no board and no script, which has been appended to the spawn queue.
\<close>

theorem spawnObject_unregistered_constructor:
  "objects demo2 ''constructor'' = None
   \<and> dom (objects demo2) = {''a''}
   \<and> spawnedObjs demo2 = [2]
   \<and> fst (spawnObject idle_collab ''constructor'' None [] demo2) = Inr (Some 3)
   \<and> name (heap (snd (spawnObject idle_collab ''constructor'' None [] demo2)) 3) = ''Object''
   \<and> board (heap (snd (spawnObject idle_collab ''constructor'' None [] demo2)) 3) = None
   \<and> script (heap (snd (spawnObject idle_collab ''constructor'' None [] demo2)) 3) = None
   \<and> spawnedObjs (snd (spawnObject idle_collab ''constructor'' None [] demo2)) = [2, 3]"
  by (simp add: demo2_eq spawnObject_def lookup_object_def object_prototype_def new_Entity_def
      generateId_def upd_def begin_entity_def gotoLabel_def idle_collab_def Let_def
      board_of_def ent_def)

subsection \<open>Board.spawnObject and the prototype\<close>



subsection \<open>The instance table during a tick\<close>

lemma table_kept_refl: "table_kept s s"
  by (simp add: table_kept_def)

lemma table_kept_len: "table_kept s s' \<Longrightarrow> length (instances s) \<le> length (instances s')"
proof -
  assume "table_kept s s'"
  then have "length (take (length (instances s)) (instances s')) = length (instances s)"
    by (simp add: table_kept_def)
  then show ?thesis by (simp add: min_def split: if_splits)
qed

lemma table_kept_trans:
  assumes "table_kept s t" and "table_kept t u"
  shows "table_kept s u"
proof -
  have l: "length (instances s) \<le> length (instances t)" using assms(1) by (rule table_kept_len)
  have "take (length (instances s)) (instances u)
      = take (length (instances s)) (take (length (instances t)) (instances u))"
    using l by (simp add: min_def)
  also have "\<dots> = take (length (instances s)) (instances t)"
    using assms(2) by (simp add: table_kept_def)
  also have "\<dots> = instances s" using assms(1) by (simp add: table_kept_def)
  finally show ?thesis by (simp add: table_kept_def)
qed

lemma table_kept_nth:
  assumes "table_kept s s'" and "i < length (instances s)"
  shows "instances s' ! i = instances s ! i"
proof -
  have "instances s ! i = take (length (instances s)) (instances s') ! i"
    using assms(1) by (simp add: table_kept_def)
  also have "\<dots> = instances s' ! i" using assms(2) by simp
  finally show ?thesis by simp
qed

lemma table_kept_upd [simp]: "table_kept s (upd r f s)"
  by (simp add: table_kept_def upd_def)

lemma apply_pending_table:
  "keeps_table C \<Longrightarrow> apply_pending C r s = (out, s') \<Longrightarrow> table_kept s s'"
  by (auto simp add: apply_pending_def keeps_table_def table_kept_def upd_def split: option.splits)

lemma exec_loop_table:
  "keeps_table C \<Longrightarrow> exec_loop C n r s = Some (out, s') \<Longrightarrow> table_kept s s'"
proof (induction n arbitrary: s)
  case 0
  then show ?case by simp
next
  case (Suc n)
  show ?case
  proof (cases "executor (heap s r)")
    case None
    with Suc.prems show ?thesis by (simp add: table_kept_refl)
  next
    case (Some x)
    obtain again s1 where xs: "xstep C x s = (again, s1)" by (cases "xstep C x s")
    have k1: "table_kept s s1"
      using Suc.prems(1) xs unfolding keeps_table_def by (metis snd_conv)
    show ?thesis
    proof (cases "\<not> again \<or> cycleEnded (heap s1 r) \<or> ended (heap s1 r)")
      case True
      with Suc.prems(2) Some xs have "s' = s1" by (auto split: if_splits)
      with k1 show ?thesis by simp
    next
      case False
      obtain o2 s2 where ap: "apply_pending C r s1 = (o2, s2)" by (cases "apply_pending C r s1")
      have k2: "table_kept s1 s2" using Suc.prems(1) ap by (rule apply_pending_table)
      show ?thesis
      proof (cases o2)
        case (Inl e)
        with Suc.prems(2) Some xs False ap have "s' = s2" by simp
        with k1 k2 show ?thesis using table_kept_trans by blast
      next
        case (Inr u)
        with Suc.prems(2) Some xs False ap have "exec_loop C n r s2 = Some (out, s')" by simp
        then have "table_kept s2 s'" using Suc.IH Suc.prems(1) by blast
        with k1 k2 show ?thesis using table_kept_trans by blast
      qed
    qed
  qed
qed

lemma execute_table:
  assumes "keeps_table C" and "execute C n r s = Some (out, s')"
  shows "table_kept s s'"
proof -
  let ?s0 = "upd r (\<lambda>e. e\<lparr>cycleEnded := False\<rparr>) s"
  have k0: "table_kept s ?s0" by simp
  show ?thesis
  proof (cases "ended (heap ?s0 r)")
    case True
    with assms(2) have "s' = ?s0" by (simp add: execute_def Let_def)
    with k0 show ?thesis by simp
  next
    case False
    obtain o1 s1 where ap: "apply_pending C r ?s0 = (o1, s1)" by (cases "apply_pending C r ?s0")
    have k1: "table_kept ?s0 s1" using assms(1) ap by (rule apply_pending_table)
    show ?thesis
    proof (cases o1)
      case (Inl e)
      with assms(2) False ap have "s' = s1" by (simp add: execute_def Let_def)
      with k0 k1 show ?thesis using table_kept_trans by blast
    next
      case (Inr u)
      with assms(2) False ap have "exec_loop C n r s1 = Some (out, s')"
        by (simp add: execute_def Let_def)
      then have "table_kept s1 s'" using exec_loop_table assms(1) by blast
      with k0 k1 show ?thesis using table_kept_trans by blast
    qed
  qed
qed

lemma exec_bucket_trace:
  assumes "keeps_table C"
  shows "i < length (instances s) \<Longrightarrow> map_of (instances s ! i) nm = Some b \<Longrightarrow>
         exec_bucket C n k i nm j s = Some (Inr tr, s') \<Longrightarrow>
         tr = drop j b \<and> table_kept s s'"
proof (induction k arbitrary: j s tr)
  case 0
  then show ?case by simp
next
  case (Suc k)
  show ?case
  proof (cases "j < length b")
    case False
    with Suc.prems show ?thesis by (auto simp add: table_kept_refl)
  next
    case True
    from Suc.prems True obtain u s1 where ex: "execute C n (b ! j) s = Some (Inr u, s1)"
      by (auto split: option.splits prod.splits sum.splits)
    from Suc.prems True ex obtain tr1 where
      rest: "exec_bucket C n k i nm (Suc j) s1 = Some (Inr tr1, s')" and tr: "tr = b ! j # tr1"
      by (auto split: option.splits prod.splits sum.splits)
    have k1: "table_kept s s1" using assms ex by (rule execute_table)
    have i1: "i < length (instances s1)" using k1 Suc.prems(1) table_kept_len by fastforce
    have m1: "map_of (instances s1 ! i) nm = Some b"
      using k1 Suc.prems(1,2) by (simp add: table_kept_nth)
    from Suc.IH [OF i1 m1 rest] have "tr1 = drop (Suc j) b" and k2: "table_kept s1 s'" by simp_all
    with tr True have "tr = drop j b" by (simp add: Cons_nth_drop_Suc)
    with k1 k2 show ?thesis using table_kept_trans by blast
  qed
qed

lemma exec_names_trace:
  assumes "keeps_table C"
  shows "i < length (instances s) \<Longrightarrow> set nms \<subseteq> fst ` set (instances s ! i) \<Longrightarrow>
         exec_names C n i nms s = Some (Inr tr, s') \<Longrightarrow>
         tr = concat (map (bucket_of (instances s ! i)) nms) \<and> table_kept s s'"
proof (induction nms arbitrary: s tr)
  case Nil
  then show ?case by (simp add: table_kept_refl)
next
  case (Cons nm nms)
  from Cons.prems(2) obtain b where b: "map_of (instances s ! i) nm = Some b"
    by (metis list.set_intros(1) subsetD map_of_eq_None_iff not_Some_eq)
  from Cons.prems(3) obtain tr1 s1 where
    eb: "exec_bucket C n n i nm 0 s = Some (Inr tr1, s1)"
    by (auto split: option.splits prod.splits sum.splits)
  from Cons.prems(3) eb obtain tr2 where
    en: "exec_names C n i nms s1 = Some (Inr tr2, s')" and tr: "tr = tr1 @ tr2"
    by (auto split: option.splits prod.splits sum.splits)
  from exec_bucket_trace [OF assms Cons.prems(1) b eb]
  have t1: "tr1 = b" and k1: "table_kept s s1" by simp_all
  have i1: "i < length (instances s1)" using k1 Cons.prems(1) table_kept_len by fastforce
  have same: "instances s1 ! i = instances s ! i" using k1 Cons.prems(1) by (rule table_kept_nth)
  have sub: "set nms \<subseteq> fst ` set (instances s1 ! i)" using Cons.prems(2) same by simp
  from Cons.IH [OF i1 sub en] same
  have t2: "tr2 = concat (map (bucket_of (instances s ! i)) nms)" and k2: "table_kept s1 s'"
    by simp_all
  from t1 t2 tr b have "tr = concat (map (bucket_of (instances s ! i)) (nm # nms))"
    by (simp add: bucket_of_def)
  with k1 k2 show ?case using table_kept_trans by blast
qed

lemma exec_levels_trace:
  assumes "keeps_table C"
  shows "i \<le> length (instances s) \<Longrightarrow> exec_levels C n i s = Some (Inr tr, s') \<Longrightarrow>
         tr = concat (map level_order (rev (take i (instances s)))) \<and> table_kept s s'"
proof (induction i arbitrary: s tr)
  case 0
  then show ?case by (simp add: table_kept_refl)
next
  case (Suc i)
  have il: "i < length (instances s)" using Suc.prems(1) by simp
  from Suc.prems(2) il obtain tr1 s1 where
    en: "exec_names C n i (js_keys (instances s ! i)) s = Some (Inr tr1, s1)"
    by (auto split: option.splits prod.splits sum.splits)
  from Suc.prems(2) il en obtain tr2 where
    el: "exec_levels C n i s1 = Some (Inr tr2, s')" and tr: "tr = tr1 @ tr2"
    by (auto split: option.splits prod.splits sum.splits)
  from exec_names_trace [OF assms il _ en]
  have t1: "tr1 = level_order (instances s ! i)" and k1: "table_kept s s1"
    by (simp_all add: level_order_def set_js_keys)
  have i1: "i \<le> length (instances s1)" using k1 il table_kept_len by fastforce
  from Suc.IH [OF i1 el]
  have t2: "tr2 = concat (map level_order (rev (take i (instances s1))))" and k2: "table_kept s1 s'"
    by simp_all
  have "take i (instances s1) = take i (instances s)"
  proof -
    have "take i (instances s) = take i (take (length (instances s)) (instances s1))"
      using k1 by (simp add: table_kept_def)
    also have "\<dots> = take i (instances s1)"
      using il by (simp add: min_def)
    finally show ?thesis by simp
  qed
  with t1 t2 tr il have "tr = concat (map level_order (rev (take (Suc i) (instances s))))"
    by (simp add: take_Suc_conv_app_nth)
  with k1 k2 show ?case using table_kept_trans by blast
qed

lemma traverse_trace:
  assumes "keeps_table C" and "traverse C n s = Some (Inr tr, s')"
  shows "tr = schedule s \<and> table_kept s s'"
  using exec_levels_trace [OF assms(1), of "length (instances s)" s n tr s'] assms(2)
  by (simp add: traverse_def schedule_def)

















lemma table_list_fields [simp]:
  "table_list (s\<lparr>spawnedObjs := x\<rparr>) = table_list s"
  "table_list (s\<lparr>deletedObjs := y\<rparr>) = table_list s"
  by (simp_all add: table_list_def)

lemma in_table_fields [simp]:
  "in_table r (s\<lparr>spawnedObjs := x\<rparr>) = in_table r s"
  "in_table r (s\<lparr>deletedObjs := y\<rparr>) = in_table r s"
  by (simp_all add: in_table_def)


lemma step_trace:
  assumes "keeps_table C" and "\<not> terminated s" and "step C n s = Some (Inr tr, s')"
  shows "\<exists>s2 s3. apply_queues s = (Inr (), s2) \<and> traverse C n s2 = Some (Inr (schedule s2), s3)
     \<and> (if terminated s3 then tr = map Exec (schedule s2) @ [Finish] \<and> s' = finishFunc C s3
         else tr = map Exec (schedule s2) \<and> s' = s3)"
proof -
  from assms(2,3) obtain s2 where aq: "apply_queues s = (Inr (), s2)"
    by (auto simp add: step_def split: prod.splits sum.splits)
  from assms(2,3) aq obtain t s3 where tv: "traverse C n s2 = Some (Inr t, s3)"
    by (auto simp add: step_def split: prod.splits sum.splits option.splits)
  from traverse_trace [OF assms(1) tv] have t: "t = schedule s2" by simp
  from assms(2,3) aq tv t show ?thesis
    by (auto simp add: step_def split: if_splits)
qed

subsection \<open>Board.step and termination\<close>

text \<open>
  Claim C2, as the code has it. A call of \<^verbatim>\<open>step\<close> on a board that is already terminated
  (for instance because \<^verbatim>\<open>terminate\<close> was called between two ticks) returns at once: no
  entity executes and the finish callback is not invoked. A call on a board that is not
  terminated applies the queues and then calls \<^verbatim>\<open>execute\<close> on every entity of the table,
  in traversal order, whether or not \<^verbatim>\<open>terminate\<close> is called on the way; if the board is
  terminated when the traversal ends, the finish callback is invoked once, after the last
  \<^verbatim>\<open>execute\<close>, and every later call of \<^verbatim>\<open>step\<close> does nothing and invokes nothing. (The
  executors leave the existing levels of the table alone, and the finish callback does
  not clear the flag.)
\<close>

theorem step_finish_once:
  assumes "keeps_table C" and "\<forall>t. terminated t \<longrightarrow> terminated (finishFunc C t)"
  shows "(terminated s \<longrightarrow> step C n s = Some (Inr [], s))
       \<and> (\<not> terminated s \<longrightarrow> (\<forall>s2 tr s'. apply_queues s = (Inr (), s2) \<longrightarrow> step C n s = Some (Inr tr, s') \<longrightarrow>
             (if terminated s' then tr = map Exec (schedule s2) @ [Finish] \<and> (\<forall>m. step C m s' = Some (Inr [], s'))
              else tr = map Exec (schedule s2))))"
proof (intro conjI impI allI)
  assume "terminated s"
  then show "step C n s = Some (Inr [], s)" by (simp add: step_def)
next
  fix s2 tr s'
  assume nt: "\<not> terminated s" and aq: "apply_queues s = (Inr (), s2)"
    and st: "step C n s = Some (Inr tr, s')"
  from step_trace [OF assms(1) nt st] aq obtain s3 where
    c: "if terminated s3 then tr = map Exec (schedule s2) @ [Finish] \<and> s' = finishFunc C s3
         else tr = map Exec (schedule s2) \<and> s' = s3"
    by auto
  show "if terminated s' then tr = map Exec (schedule s2) @ [Finish] \<and> (\<forall>m. step C m s' = Some (Inr [], s'))
              else tr = map Exec (schedule s2)"
  proof (cases "terminated s3")
    case True
    with c assms(2) have "terminated s'" by simp
    with c True show ?thesis by (simp add: step_def)
  next
    case False
    with c show ?thesis by simp
  qed
qed

lemma keeps_table_term: "keeps_table term_collab"
  by (simp add: keeps_table_def term_collab_def idle_collab_def terminate_def table_kept_def)

theorem step_finish_once_witness:
  "\<not> terminated dup1 \<and> step term_collab 3 dup1 = Some (Inr [Exec 2, Exec 3, Finish], dup1_done)
   \<and> terminated dup1_done \<and> step term_collab 7 dup1_done = Some (Inr [], dup1_done)"
proof -
  have fk: "\<forall>t. terminated t \<longrightarrow> terminated (finishFunc term_collab t)"
    by (simp add: term_collab_def idle_collab_def)
  have nt: "\<not> terminated dup1" by (simp add: dup1_eq board_of_def)
  have aq: "apply_queues dup1 = (Inr (), board_of (store1(2 := inst 2 0 2 False init_jump, 3 := inst 3 0 3 False init_jump)) 4 [ [(''a'', [2, 3])]] [] [] False)"
    by (simp add: dup1_eq ops tick_ops)
  have st: "step term_collab 3 dup1 = Some (Inr [Exec 2, Exec 3, Finish], dup1_done)"
    by (simp add: dup1_step dup1_done_eq)
  have td: "terminated dup1_done" by (simp add: dup1_done_eq board_of_def)
  from step_finish_once [OF keeps_table_term fk, of dup1 3] nt aq st td
  have "\<forall>m. step term_collab m dup1_done = Some (Inr [], dup1_done)" by simp
  with nt st td show ?thesis by simp
qed

text \<open>
  Claim C2 as stated fails: \<^verbatim>\<open>terminate\<close> is called before the tick, so the flag became
  true up to this tick, and the tick invokes neither \<^verbatim>\<open>execute\<close> nor the finish callback.
\<close>

theorem step_after_terminate_counterexample:
  "\<not> terminated demo2 \<and> terminated (terminate demo2)
   \<and> step idle_collab 3 (terminate demo2) = Some (Inr [], terminate demo2)"
  by (simp add: terminate_def step_def demo2_eq board_of_def)

subsection \<open>Spawning during a tick\<close>






lemma span_grows: "span C s s' cs \<Longrightarrow> grows s s'"
  by (simp add: span_def)













lemma clone_slot_new: "\<exists>b nm' sc ps. clone_slot sl s = new_Entity b nm' sc ps s"
  by (cases sl) (auto simp add: clone_def)













subsection \<open>Board.removeObject with the recursive flag\<close>

text \<open>
  Claim C4, evaluated on the chain 2, 3, 4 (3 a child of 2, 4 a child of 3, all three in
  the table): after \<^verbatim>\<open>removeObject(2, true)\<close> the entities 2 and 3 are locked and ended,
  entity 4 is neither, and only 3 and 2 are queued for deletion. The table is unchanged.
\<close>

theorem removeObject_recursive_misses_grandchild:
  "getChildObjects 2 chain3 = [3] \<and> getChildObjects 3 chain3 = [4]
   \<and> locked (heap chain4 2) \<and> ended (heap chain4 2)
   \<and> locked (heap chain4 3) \<and> ended (heap chain4 3)
   \<and> \<not> locked (heap chain4 4) \<and> \<not> ended (heap chain4 4)
   \<and> deletedObjs chain4 = [3, 2] \<and> instances chain4 = instances chain3"
  by (simp add: chain3_children) (simp add: chain4_eq chain3_eq board_of_def ent_def)

subsection \<open>The purge phase\<close>

text \<open>
  Claim C5, evaluated on a board whose bucket \<^verbatim>\<open>a\<close> holds the entities 2 and 3: entity 2
  is removed twice, so it is queued twice; the next tick empties the queue and takes
  both entities out of the bucket, although entity 3 was never removed.
\<close>

theorem purge_duplicate_removes_other:
  "instances dup2 = [ [(''a'', [2, 3])]] \<and> deletedObjs dup3 = [2, 2] \<and> \<not> locked (heap dup3 3)
   \<and> instances dup4 = [ [(''a'', [])]] \<and> deletedObjs dup4 = [] \<and> \<not> locked (heap dup4 3)"
  by (simp add: dup4_def dup4_step state_after_def) (simp add: dup2_eq dup3_eq board_of_def ent_def)

subsection \<open>Groups\<close>

text \<open>
  Claim C7, evaluated on an entity that is a member of group \<^verbatim>\<open>h\<close> and not of group \<^verbatim>\<open>g\<close>:
  after \<^verbatim>\<open>removeObjectFromGroup("g", e)\<close> the entity's own list of groups is empty, and the
  member set of \<^verbatim>\<open>h\<close> still contains the entity.
\<close>

theorem removeObjectFromGroup_nonmember:
  "groups (heap grp1 2) = [''h''] \<and> getObjectsInGroup ''h'' grp1 = Some [2]
   \<and> getObjectsInGroup ''g'' grp1 = Some []
   \<and> groups (heap grp2 2) = [] \<and> getObjectsInGroup ''h'' grp2 = Some [2]"
  by (simp add: grp2_def grp1_eq ops removeObjectFromGroup_def removeEntity_def getObjectsInGroup_def
      indexOf_def splice1_def)

subsection \<open>Locked entities\<close>

lemma heap_upd: "heap (upd r f s) r' = (if r' = r then f (heap s r) else heap s r')"
  by (simp add: upd_def)

lemma nextRef_upd [simp]: "nextRef (upd r f s) = nextRef s"
  by (simp add: upd_def)

lemma new_Entity_heap:
  "heap (snd (new_Entity b nm sc ps s)) r =
     (if r = nextRef s
      then \<lparr>id_num = idCounter s, board = b, name = nm, script = sc, initParams = ps,
            depth = 0, parent = None, variables = [], adoptions = [], groups = [],
            ended = False, cycleEnded = False, locked = False,
            pendingJumpOp = None, executor = None\<rparr>
      else heap s r)"
  by (simp add: new_Entity_def generateId_def Let_def)

lemma new_Entity_nextRef [simp]: "nextRef (snd (new_Entity b nm sc ps s)) = Suc (nextRef s)"
  by (simp add: new_Entity_def generateId_def Let_def)

lemma stable_lock_inv: "stable lock_inv"
  unfolding stable_def
proof (intro conjI allI impI)
  fix s :: "'a state" and r f
  assume "lock_inv s" "keeps_flags f"
  then show "lock_inv (upd r f s)"
    by (simp add: lock_inv_def keeps_flags_def heap_upd)
next
  fix s s' :: "'a state"
  assume "lock_inv s" "heap s' = heap s"
  then show "lock_inv s'" by (simp add: lock_inv_def)
next
  fix s :: "'a state" and b nm sc ps
  assume "lock_inv s"
  then show "lock_inv (snd (new_Entity b nm sc ps s))"
    by (simp add: lock_inv_def new_Entity_heap)
next
  fix s :: "'a state" and r
  assume "lock_inv s"
  then show "lock_inv (upd r (\<lambda>e. e\<lparr>locked := True, ended := True, cycleEnded := True\<rparr>) s)"
    by (simp add: lock_inv_def heap_upd)
next
  fix s :: "'a state" and r jp
  assume "lock_inv s" "\<not> locked (heap s r)"
  then show "lock_inv (upd r (\<lambda>e. e\<lparr>pendingJumpOp := jp, ended := False, cycleEnded := False\<rparr>) s)"
    by (simp add: lock_inv_def heap_upd)
next
  fix s t :: "'a state" and r
  assume "lock_inv t"
  then show "lock_inv (upd r (\<lambda>e. e\<lparr>pendingJumpOp := None\<rparr>) t)"
    by (simp add: lock_inv_def heap_upd)
qed

lemma stable_held: "stable (held r j)"
  unfolding stable_def
proof (intro conjI allI impI)
  fix s :: "'a state" and q f
  assume "held r j s" "keeps_flags f"
  then show "held r j (upd q f s)"
    by (auto simp add: held_def keeps_flags_def heap_upd)
next
  fix s s' :: "'a state"
  assume "held r j s" "heap s' = heap s" "nextRef s' = nextRef s"
  then show "held r j s'" by (simp add: held_def)
next
  fix s :: "'a state" and b nm sc ps
  assume "held r j s"
  then show "held r j (snd (new_Entity b nm sc ps s))"
    by (auto simp add: held_def new_Entity_heap)
next
  fix s :: "'a state" and q
  assume "held r j s"
  then show "held r j (upd q (\<lambda>e. e\<lparr>locked := True, ended := True, cycleEnded := True\<rparr>) s)"
    by (auto simp add: held_def heap_upd)
next
  fix s :: "'a state" and q jp
  assume "held r j s" "\<not> locked (heap s q)"
  then have "q \<noteq> r" by (auto simp add: held_def)
  with \<open>held r j s\<close>
  show "held r j (upd q (\<lambda>e. e\<lparr>pendingJumpOp := jp, ended := False, cycleEnded := False\<rparr>) s)"
    by (auto simp add: held_def heap_upd)
next
  fix s t :: "'a state" and q
  assume "held r j s" "\<not> ended (heap s q)" "held r j t"
  then have "q \<noteq> r" by (auto simp add: held_def)
  with \<open>held r j t\<close> show "held r j (upd q (\<lambda>e. e\<lparr>pendingJumpOp := None\<rparr>) t)"
    by (auto simp add: held_def heap_upd)
qed

lemma stableD:
  assumes "stable P" and "P s"
  shows "keeps_flags f \<Longrightarrow> P (upd r f s)"
    and "heap s' = heap s \<Longrightarrow> nextRef s' = nextRef s \<Longrightarrow> P s'"
    and "P (snd (new_Entity b nm sc ps s))"
    and "P (upd r (\<lambda>e. e\<lparr>locked := True, ended := True, cycleEnded := True\<rparr>) s)"
    and "\<not> locked (heap s r) \<Longrightarrow>
        P (upd r (\<lambda>e. e\<lparr>pendingJumpOp := jp, ended := False, cycleEnded := False\<rparr>) s)"
    and "\<not> ended (heap s r) \<Longrightarrow> P t \<Longrightarrow> P (upd r (\<lambda>e. e\<lparr>pendingJumpOp := None\<rparr>) t)"
proof -
  note st = assms(1) [unfolded stable_def]
  note c1 = st [THEN conjunct1, rule_format]
  note c2 = st [THEN conjunct2, THEN conjunct1, rule_format]
  note c3 = st [THEN conjunct2, THEN conjunct2, THEN conjunct1, rule_format]
  note c4 = st [THEN conjunct2, THEN conjunct2, THEN conjunct2, THEN conjunct1, rule_format]
  note c5 = st [THEN conjunct2, THEN conjunct2, THEN conjunct2, THEN conjunct2, THEN conjunct1,
      rule_format]
  note c6 = st [THEN conjunct2, THEN conjunct2, THEN conjunct2, THEN conjunct2, THEN conjunct2,
      rule_format]
  show "keeps_flags f \<Longrightarrow> P (upd r f s)" using assms(2) by (rule c1)
  show "heap s' = heap s \<Longrightarrow> nextRef s' = nextRef s \<Longrightarrow> P s'" using assms(2) by (rule c2)
  show "P (snd (new_Entity b nm sc ps s))" using assms(2) by (rule c3)
  show "P (upd r (\<lambda>e. e\<lparr>locked := True, ended := True, cycleEnded := True\<rparr>) s)"
    using assms(2) by (rule c4)
  show "\<not> locked (heap s r) \<Longrightarrow>
        P (upd r (\<lambda>e. e\<lparr>pendingJumpOp := jp, ended := False, cycleEnded := False\<rparr>) s)"
    using assms(2) by (rule c5)
  show "\<not> ended (heap s r) \<Longrightarrow> P t \<Longrightarrow> P (upd r (\<lambda>e. e\<lparr>pendingJumpOp := None\<rparr>) t)"
    using assms(2) by (rule c6)
qed

lemma kf [simp]:
  "keeps_flags (\<lambda>e. e\<lparr>cycleEnded := c\<rparr>)" "keeps_flags (\<lambda>e. e\<lparr>adoptions := a\<rparr>)"
  "keeps_flags (\<lambda>e. e\<lparr>groups := g e\<rparr>)" "keeps_flags (\<lambda>e. e\<lparr>depth := d\<rparr>)"
  "keeps_flags (\<lambda>e. e\<lparr>parent := p\<rparr>)" "keeps_flags (\<lambda>e. e\<lparr>executor := x\<rparr>)"
  by (simp_all add: keeps_flags_def)

lemma gotoLabel_stable:
  assumes "stable P" and "P s"
  shows "P (snd (gotoLabel C r l args s))"
  using assms stableD(5) [OF assms, of r]
  by (simp add: gotoLabel_def split: option.splits)

lemma begin_stable:
  assumes "stable P" and "P s"
  shows "P (snd (begin_entity C r args s))"
  unfolding begin_entity_def
  by (rule gotoLabel_stable [OF assms(1)]) (rule stableD(1) [OF assms], simp)

lemma apply_pending_stable:
  assumes "stable P" and "collab_preserves P C" and "P s" and "\<not> ended (heap s r)"
  shows "P (snd (apply_pending C r s))"
proof (cases "pendingJumpOp (heap s r)")
  case None
  with assms(3) show ?thesis by (simp add: apply_pending_def)
next
  case (Some j)
  show ?thesis
  proof (cases "executor (heap s r)")
    case None
    with Some assms(3) show ?thesis by (simp add: apply_pending_def)
  next
    case (Some x)
    have "P (execJumpOp C x j s)" using assms(2,3) by (simp add: collab_preserves_def)
    from stableD(6) [OF assms(1,3,4) this] Some \<open>pendingJumpOp (heap s r) = Some j\<close>
    show ?thesis by (simp add: apply_pending_def)
  qed
qed

lemma exec_loop_stable:
  assumes "stable P" and "collab_preserves P C"
  shows "P s \<Longrightarrow> exec_loop C n r s = Some (out, s') \<Longrightarrow> P s'"
proof (induction n arbitrary: s)
  case 0
  then show ?case by simp
next
  case (Suc n)
  show ?case
  proof (cases "executor (heap s r)")
    case None
    with Suc.prems show ?thesis by simp
  next
    case (Some x)
    obtain again s1 where xs: "xstep C x s = (again, s1)" by (cases "xstep C x s")
    have p1: "P s1" using assms(2) Suc.prems(1) xs unfolding collab_preserves_def
      by (metis snd_conv)
    show ?thesis
    proof (cases "\<not> again \<or> cycleEnded (heap s1 r) \<or> ended (heap s1 r)")
      case True
      with Suc.prems(2) Some xs have "s' = s1" by (auto split: if_splits)
      with p1 show ?thesis by simp
    next
      case False
      obtain o2 s2 where ap: "apply_pending C r s1 = (o2, s2)" by (cases "apply_pending C r s1")
      have p2: "P s2" using apply_pending_stable [OF assms p1, of r] False ap by simp
      show ?thesis
      proof (cases o2)
        case (Inl e)
        with Suc.prems(2) Some xs False ap have "s' = s2" by simp
        with p2 show ?thesis by simp
      next
        case (Inr u)
        with Suc.prems(2) Some xs False ap have "exec_loop C n r s2 = Some (out, s')" by simp
        with p2 show ?thesis by (rule Suc.IH)
      qed
    qed
  qed
qed

lemma execute_stable:
  assumes "stable P" and "collab_preserves P C" and "P s" and "execute C n r s = Some (out, s')"
  shows "P s'"
proof -
  let ?s0 = "upd r (\<lambda>e. e\<lparr>cycleEnded := False\<rparr>) s"
  have p0: "P ?s0" by (rule stableD(1) [OF assms(1,3)]) simp
  show ?thesis
  proof (cases "ended (heap ?s0 r)")
    case True
    with assms(4) have "s' = ?s0" by (simp add: execute_def Let_def)
    with p0 show ?thesis by simp
  next
    case False
    obtain o1 s1 where ap: "apply_pending C r ?s0 = (o1, s1)" by (cases "apply_pending C r ?s0")
    have p1: "P s1" using apply_pending_stable [OF assms(1,2) p0 False] ap by simp
    show ?thesis
    proof (cases o1)
      case (Inl e)
      with assms(4) False ap have "s' = s1" by (simp add: execute_def Let_def)
      with p1 show ?thesis by simp
    next
      case (Inr u)
      with assms(4) False ap have "exec_loop C n r s1 = Some (out, s')"
        by (simp add: execute_def Let_def)
      with p1 show ?thesis using exec_loop_stable [OF assms(1,2)] by blast
    qed
  qed
qed

lemma exec_bucket_stable:
  assumes "stable P" and "collab_preserves P C"
  shows "P s \<Longrightarrow> exec_bucket C n k i nm j s = Some (out, s') \<Longrightarrow> P s'"
proof (induction k arbitrary: j s out)
  case 0
  then show ?case by simp
next
  case (Suc k)
  show ?case
  proof (cases "length (instances s) \<le> i")
    case True
    with Suc.prems show ?thesis by simp
  next
    case False
    show ?thesis
    proof (cases "map_of (instances s ! i) nm")
      case None
      with False Suc.prems have "s' = s" by (auto split: option.splits prod.splits if_splits)
      with Suc.prems(1) show ?thesis by simp
    next
      case (Some b)
      show ?thesis
      proof (cases "j < length b")
        case nj: False
        with False Some Suc.prems show ?thesis by simp
      next
        case True
        from Suc.prems(2) False Some True obtain o1 s1 where
          ex: "execute C n (b ! j) s = Some (o1, s1)"
          by (auto split: option.splits)
        have p1: "P s1" by (rule execute_stable [OF assms Suc.prems(1) ex])
        show ?thesis
        proof (cases o1)
          case (Inl e)
          with Suc.prems(2) False Some True ex have "s' = s1" by simp
          with p1 show ?thesis by simp
        next
          case (Inr u)
          with Suc.prems(2) False Some True ex obtain o2 where
            "exec_bucket C n k i nm (Suc j) s1 = Some (o2, s')"
            by (auto split: option.splits prod.splits sum.splits)
          with p1 show ?thesis by (rule Suc.IH)
        qed
      qed
    qed
  qed
qed

lemma exec_names_stable:
  assumes "stable P" and "collab_preserves P C"
  shows "P s \<Longrightarrow> exec_names C n i nms s = Some (out, s') \<Longrightarrow> P s'"
proof (induction nms arbitrary: s out)
  case Nil
  then show ?case by simp
next
  case (Cons nm nms)
  from Cons.prems(2) obtain o1 s1 where eb: "exec_bucket C n n i nm 0 s = Some (o1, s1)"
    by (auto split: option.splits)
  have p1: "P s1" using exec_bucket_stable [OF assms Cons.prems(1) eb] .
  show ?case
  proof (cases o1)
    case (Inl e)
    with Cons.prems(2) eb have "s' = s1" by simp
    with p1 show ?thesis by simp
  next
    case (Inr tr)
    with Cons.prems(2) eb obtain o2 where "exec_names C n i nms s1 = Some (o2, s')"
      by (auto split: option.splits prod.splits sum.splits)
    with p1 show ?thesis by (rule Cons.IH)
  qed
qed

lemma exec_levels_stable:
  assumes "stable P" and "collab_preserves P C"
  shows "P s \<Longrightarrow> exec_levels C n i s = Some (out, s') \<Longrightarrow> P s'"
proof (induction i arbitrary: s out)
  case 0
  then show ?case by simp
next
  case (Suc i)
  let ?nms = "if i < length (instances s) then js_keys (instances s ! i) else []"
  from Suc.prems(2) obtain o1 s1 where en: "exec_names C n i ?nms s = Some (o1, s1)"
    by (auto split: option.splits)
  have p1: "P s1" using exec_names_stable [OF assms Suc.prems(1) en] .
  show ?case
  proof (cases o1)
    case (Inl e)
    with Suc.prems(2) en have "s' = s1" by simp
    with p1 show ?thesis by simp
  next
    case (Inr tr)
    with Suc.prems(2) en obtain o2 where "exec_levels C n i s1 = Some (o2, s')"
      by (auto split: option.splits prod.splits sum.splits)
    with p1 show ?thesis by (rule Suc.IH)
  qed
qed

lemma promote_all_stable:
  assumes "stable P"
  shows "P s \<Longrightarrow> P (snd (promote_all rs s))"
proof (induction rs arbitrary: s)
  case Nil
  then show ?case by simp
next
  case (Cons r rs)
  have "P (snd (promote r s))"
    by (rule stableD(2) [OF assms Cons.prems]) (simp_all add: promote_def Let_def split: option.splits)
  then show ?case using Cons.IH by (auto split: prod.splits sum.splits)
qed

lemma purge_all_stable:
  assumes "stable P"
  shows "P s \<Longrightarrow> P (snd (purge_all rs s))"
proof (induction rs arbitrary: s)
  case Nil
  then show ?case by simp
next
  case (Cons r rs)
  have "P (snd (purge r s))"
    by (rule stableD(2) [OF assms Cons.prems]) (simp_all add: purge_def Let_def split: option.splits)
  then show ?case using Cons.IH by (auto split: prod.splits sum.splits)
qed

lemma apply_queues_stable:
  assumes "stable P" and "P s"
  shows "P (snd (apply_queues s))"
proof -
  obtain o1 s1 where p: "promote_all (spawnedObjs s) s = (o1, s1)"
    by (cases "promote_all (spawnedObjs s) s")
  have p1: "P s1" using promote_all_stable [OF assms, of "spawnedObjs s"] p by simp
  have p1': "P (s1\<lparr>spawnedObjs := []\<rparr>)" by (rule stableD(2) [OF assms(1) p1]) simp_all
  obtain o2 s2 where q: "purge_all (deletedObjs s1) (s1\<lparr>spawnedObjs := []\<rparr>) = (o2, s2)"
    by (cases "purge_all (deletedObjs s1) (s1\<lparr>spawnedObjs := []\<rparr>)")
  have p2: "P s2" using purge_all_stable [OF assms(1) p1', of "deletedObjs s1"] q by simp
  have p2': "P (s2\<lparr>deletedObjs := []\<rparr>)" by (rule stableD(2) [OF assms(1) p2]) simp_all
  from p q p1 p2 p2' show ?thesis
    by (cases o1; cases o2) (simp_all add: apply_queues_def)
qed

lemma step_stable:
  assumes "stable P" and "collab_preserves P C" and "P s" and "step C n s = Some (out, s')"
  shows "P s'"
proof (cases "terminated s")
  case True
  with assms(3,4) show ?thesis by (simp add: step_def)
next
  case False
  obtain o1 s2 where aq: "apply_queues s = (o1, s2)" by (cases "apply_queues s")
  have p2: "P s2" using apply_queues_stable [OF assms(1,3)] aq by simp
  show ?thesis
  proof (cases o1)
    case (Inl e)
    with assms(4) False aq have "s' = s2" by (simp add: step_def)
    with p2 show ?thesis by simp
  next
    case (Inr u)
    with assms(4) False aq obtain o3 s3 where tv: "traverse C n s2 = Some (o3, s3)"
      by (auto simp add: step_def split: option.splits)
    have p3: "P s3" using exec_levels_stable [OF assms(1,2) p2] tv by (simp add: traverse_def)
    have pf: "P (finishFunc C s3)" using assms(2) p3 by (simp add: collab_preserves_def)
    from assms(4) False aq Inr tv p3 pf show ?thesis
      by (cases o3) (auto simp add: step_def split: if_splits)
  qed
qed

lemma auto_loop_stable:
  assumes "stable P" and "collab_preserves P C"
  shows "P s \<Longrightarrow> auto_loop C n k s = Some (out, s') \<Longrightarrow> P s'"
proof (induction k arbitrary: s)
  case 0
  then show ?case by simp
next
  case (Suc k)
  show ?case
  proof (cases "terminated s")
    case True
    with Suc.prems show ?thesis by simp
  next
    case False
    with Suc.prems(2) obtain o1 s1 where st: "step C n s = Some (o1, s1)"
      by (auto split: option.splits)
    have p1: "P s1" by (rule step_stable [OF assms Suc.prems(1) st])
    show ?thesis
    proof (cases o1)
      case (Inl e)
      with Suc.prems(2) False st have "s' = s1" by simp
      with p1 show ?thesis by simp
    next
      case (Inr tr)
      with Suc.prems(2) False st have "auto_loop C n k s1 = Some (out, s')" by simp
      with p1 show ?thesis by (rule Suc.IH)
    qed
  qed
qed

lemma start_stable:
  assumes "stable P" and "collab_preserves P C" and "P s" and "start C n s = Some (out, s')"
  shows "P s'"
proof -
  obtain o1 s1 where su: "setupFunc C s = (o1, s1)" by (cases "setupFunc C s")
  have p1: "P s1" using assms(2,3) su unfolding collab_preserves_def by (metis snd_conv)
  show ?thesis
  proof (cases o1)
    case (Inl e)
    with assms(4) su have "s' = s1" by (simp add: start_def)
    with p1 show ?thesis by simp
  next
    case (Inr u)
    define b where "b = boardRef s1"
    define s2 where
      "s2 = upd b (\<lambda>e. e\<lparr>script := Some (runScript s1), depth := 0, parent := None\<rparr>) s1"
    have p2: "P s2"
      unfolding s2_def by (rule stableD(1) [OF assms(1) p1]) (simp add: keeps_flags_def)
    note unf = start_def Let_def b_def [symmetric] s2_def [symmetric]
    show ?thesis
    proof (cases "parser s2")
      case None
      with assms(4) su Inr have "s' = s2" by (simp add: unf)
      with p2 show ?thesis by simp
    next
      case (Some ps)
      obtain x w where pr: "parse C ps b s2 = (x, w)" by (cases "parse C ps b s2")
      define s2' where "s2' = upd b (\<lambda>e. e\<lparr>executor := Some x\<rparr>) (s2\<lparr>world := w\<rparr>)"
      have "P (s2\<lparr>world := w\<rparr>)" by (rule stableD(2) [OF assms(1) p2]) simp_all
      then have p2': "P s2'" unfolding s2'_def by (rule stableD(1) [OF assms(1)]) simp
      obtain o3 s3 where bg: "begin_entity C b [] s2' = (o3, s3)"
        by (cases "begin_entity C b [] s2'")
      have p3: "P s3" using begin_stable [OF assms(1) p2', of C b "[]"] bg by simp
      show ?thesis
      proof (cases o3)
        case (Inl e)
        with assms(4) su Inr Some pr bg have "s' = s3"
          by (simp add: unf s2'_def [symmetric])
        with p3 show ?thesis by simp
      next
        case o3: (Inr u3)
        show ?thesis
        proof (cases "instances s3")
          case Nil
          with assms(4) su Inr Some pr bg o3 have "s' = s3"
            by (simp add: unf s2'_def [symmetric])
          with p3 show ?thesis by simp
        next
          case (Cons lvl lvls)
          define s4 where "s4 = s3\<lparr>instances := put_bucket ''_board'' [b] lvl # lvls\<rparr>"
          have p4: "P s4" unfolding s4_def by (rule stableD(2) [OF assms(1) p3]) simp_all
          show ?thesis
          proof (cases "autoStep s4")
            case True
            then have "autoStep s3" by (simp add: s4_def)
            with assms(4) su Inr Some pr bg o3 Cons
            have "auto_loop C n n s4 = Some (out, s')"
              by (simp add: unf s2'_def [symmetric] s4_def)
            with p4 show ?thesis using auto_loop_stable [OF assms(1,2)] by blast
          next
            case False
            then have "\<not> autoStep s3" by (simp add: s4_def)
            with assms(4) su Inr Some pr bg o3 Cons have "s' = s4"
              by (simp add: unf s2'_def [symmetric] s4_def)
            with p4 show ?thesis by simp
          qed
        qed
      qed
    qed
  qed
qed

lemma destroyAdoptions_stable:
  assumes "stable P" and "P s"
  shows "P (destroyAdoptions r s)"
proof -
  have "P (s\<lparr>destroyed := destroyed s @ adoptions (heap s r)\<rparr>)"
    by (rule stableD(2) [OF assms]) simp_all
  from stableD(1) [OF assms(1) this] show ?thesis by (simp add: destroyAdoptions_def)
qed

lemma defineObject_stable:
  assumes "stable P" and "P s"
  shows "P (snd (defineObject nm call s))"
proof -
  have n: "P (snd (new_Entity b nm sc ps s))" for b sc ps by (rule stableD(3) [OF assms])
  have "P (t\<lparr>objects := ob\<rparr>)" if "P t" for t ob
    by (rule stableD(2) [OF assms(1) that]) simp_all
  with n assms(2) show ?thesis
    by (auto simp add: defineObject_def split: option.splits def_call.splits prod.splits)
      (metis snd_conv)+
qed

lemma spawnObject_stable:
  assumes "stable P" and "P s"
  shows "P (snd (spawnObject C nm par args s))"
proof (cases "lookup_object nm s")
  case None
  with assms(2) show ?thesis by (simp add: spawnObject_def)
next
  case (Some sl)
  define s1 where "s1 = (case par of None \<Rightarrow> s
       | Some q \<Rightarrow> if length (instances s) \<le> depth (heap s q) + 1
                   then s\<lparr>instances := instances s @ [ []]\<rparr> else s)"
  have p1: "P s1"
    by (rule stableD(2) [OF assms]) (simp_all add: s1_def split: option.splits)
  obtain obj s2 where cl: "clone_slot sl s1 = (obj, s2)" by (cases "clone_slot sl s1")
  obtain b nm' sc ps where ne: "clone_slot sl s1 = new_Entity b nm' sc ps s1"
    using clone_slot_new by blast
  have p2: "P s2"
    using stableD(3) [OF assms(1) p1, of b nm' sc ps] cl ne by simp
  define s3 where "s3 = upd obj (\<lambda>e. e\<lparr>depth := (case par of None \<Rightarrow> 0
                                                        | Some q \<Rightarrow> depth (heap s2 q) + 1)\<rparr>) s2"
  have p3: "P s3" unfolding s3_def by (rule stableD(1) [OF assms(1) p2]) simp
  define s4 where "s4 = upd obj (\<lambda>e. e\<lparr>parent := (case par of None \<Rightarrow> Some obj
                                                         | Some q \<Rightarrow> Some q)\<rparr>) s3"
  have p4: "P s4" unfolding s4_def by (rule stableD(1) [OF assms(1) p3]) simp
  show ?thesis
  proof (cases "parser s4")
    case None
    with Some cl p4 show ?thesis
      by (simp add: spawnObject_def Let_def s1_def [symmetric] s3_def [symmetric] s4_def [symmetric])
  next
    case ps: (Some ps)
    obtain x w where pr: "parse C ps obj s4 = (x, w)" by (cases "parse C ps obj s4")
    have "P (s4\<lparr>world := w\<rparr>)" by (rule stableD(2) [OF assms(1) p4]) simp_all
    then have p5: "P (upd obj (\<lambda>e. e\<lparr>executor := Some x\<rparr>) (s4\<lparr>world := w\<rparr>))"
      by (rule stableD(1) [OF assms(1)]) simp
    obtain o6 s6 where bg: "begin_entity C obj args
        (upd obj (\<lambda>e. e\<lparr>executor := Some x\<rparr>) (s4\<lparr>world := w\<rparr>)) = (o6, s6)"
      by (cases "begin_entity C obj args (upd obj (\<lambda>e. e\<lparr>executor := Some x\<rparr>) (s4\<lparr>world := w\<rparr>))")
    have p6: "P s6" using begin_stable [OF assms(1) p5, of C obj args] bg by simp
    have p7: "P (s6\<lparr>spawnedObjs := spawnedObjs s6 @ [obj]\<rparr>)"
      by (rule stableD(2) [OF assms(1) p6]) simp_all
    from Some cl ps pr bg p6 p7 show ?thesis
      by (cases o6)
        (simp_all add: spawnObject_def Let_def s1_def [symmetric] s3_def [symmetric] s4_def [symmetric])
  qed
qed

lemma addObjectToGroup_stable:
  assumes "stable P" and "P s"
  shows "P (addObjectToGroup g r s)"
proof (cases "groupStore s g")
  case None
  with assms(2) show ?thesis by (simp add: addObjectToGroup_def)
next
  case (Some ms)
  have "P (s\<lparr>groupStore := (groupStore s)(g \<mapsto> addEntity r ms)\<rparr>)"
    by (rule stableD(2) [OF assms]) simp_all
  from stableD(1) [OF assms(1) this] Some show ?thesis by (simp add: addObjectToGroup_def)
qed

lemma removeObjectFromGroup_stable:
  assumes "stable P" and "P s"
  shows "P (removeObjectFromGroup g r s)"
proof (cases "groupStore s g")
  case None
  with assms(2) show ?thesis by (simp add: removeObjectFromGroup_def)
next
  case (Some ms)
  have "P (s\<lparr>groupStore := (groupStore s)(g \<mapsto> removeEntity r ms)\<rparr>)"
    by (rule stableD(2) [OF assms]) simp_all
  from stableD(1) [OF assms(1) this, of "\<lambda>e. e\<lparr>groups := splice1 (indexOf (groups e) g) (groups e)\<rparr>"]
    Some show ?thesis by (simp add: removeObjectFromGroup_def)
qed

lemma removeFromAll_loop_stable:
  assumes "stable P"
  shows "P s \<Longrightarrow> P (removeFromAll_loop i r s)"
proof (induction i arbitrary: s)
  case 0
  then show ?case by simp
next
  case (Suc i)
  have "P (if i < length (groups (heap s r))
        then removeObjectFromGroup (groups (heap s r) ! i) r s else s)"
    using removeObjectFromGroup_stable [OF assms Suc.prems] Suc.prems by simp
  then show ?case using Suc.IH by simp
qed

lemma removeObject_self_stable:
  assumes "stable P" and "P s"
  shows "P (removeObject_self r s)"
proof -
  let ?s1 = "upd r (\<lambda>e. e\<lparr>locked := True, ended := True, cycleEnded := True\<rparr>) s"
  have p1: "P ?s1" by (rule stableD(4) [OF assms])
  have p2: "P (destroyAdoptions r ?s1)" by (rule destroyAdoptions_stable [OF assms(1) p1])
  have p3: "P (removeObjectFromAllGroups r (destroyAdoptions r ?s1))"
    unfolding removeObjectFromAllGroups_def by (rule removeFromAll_loop_stable [OF assms(1) p2])
  show ?thesis
    unfolding removeObject_self_def Let_def
    by (rule stableD(2) [OF assms(1) p3]) simp_all
qed

lemma fold_stable:
  assumes "\<And>x t. P t \<Longrightarrow> P (f x t)"
  shows "P s \<Longrightarrow> P (fold f xs s)"
  by (induction xs arbitrary: s) (simp_all add: assms)

lemma removeObject_stable:
  assumes "stable P" and "P s"
  shows "P (removeObject r recursive s)"
proof -
  have "P (fold (\<lambda>child. removeObject_self child) xs s)" for xs
    using assms(2) by (rule fold_stable [rotated]) (rule removeObject_self_stable [OF assms(1)])
  then have "P (if recursive then fold (\<lambda>child. removeObject_self child) (getChildObjects r s) s else s)"
    using assms(2) by simp
  then show ?thesis unfolding removeObject_def by (rule removeObject_self_stable [OF assms(1)])
qed

lemma replaceObject_stable:
  assumes "stable P" and "P s"
  shows "P (snd (replaceObject C target newName args s))"
proof (cases "lookup_object newName s")
  case None
  with assms(2) show ?thesis by (simp add: replaceObject_def)
next
  case (Some sl)
  let ?nm = "case sl of Own p \<Rightarrow> name (heap s p) | Inherited fname \<Rightarrow> fname"
  obtain o1 s1 where sp: "spawnObject C ?nm (parent (heap s target)) args s = (o1, s1)"
    by (cases "spawnObject C ?nm (parent (heap s target)) args s")
  have p1: "P s1" using spawnObject_stable [OF assms, of C ?nm "parent (heap s target)" args] sp
    by simp
  show ?thesis
  proof (cases o1)
    case (Inl e)
    with Some sp p1 show ?thesis by (simp add: replaceObject_def)
  next
    case (Inr newObject)
    have "P (fold (\<lambda>child. upd child (\<lambda>e. e\<lparr>parent := newObject\<rparr>)) xs s1)" for xs
      using p1 by (rule fold_stable [rotated]) (rule stableD(1) [OF assms(1)], assumption, simp)
    then have "P (removeObject target False
                  (fold (\<lambda>child. upd child (\<lambda>e. e\<lparr>parent := newObject\<rparr>))
                     (getChildObjects target s1) s1))"
      by (rule removeObject_stable [OF assms(1)])
    with Some sp Inr show ?thesis by (simp add: replaceObject_def)
  qed
qed

lemma apply_op_stable:
  assumes "stable P" and "collab_preserves P C" and "P s" and "apply_op C n ao s = Some s'"
  shows "P s'"
proof (cases ao)
  case (Begin r args)
  with assms(4) begin_stable [OF assms(1,3), of C r args] show ?thesis by auto
next
  case (GotoLabel r l args)
  with assms(4) gotoLabel_stable [OF assms(1,3), of C r l args] show ?thesis by auto
next
  case (Execute r)
  with assms(4) obtain out where "execute C n r s = Some (out, s')" by auto
  then show ?thesis by (rule execute_stable [OF assms(1,2,3)])
next
  case (DestroyAdoptions r)
  with assms(4) destroyAdoptions_stable [OF assms(1,3), of r] show ?thesis by auto
next
  case (Configure a p)
  have "P (configure a p s)" by (rule stableD(2) [OF assms(1,3)]) (simp_all add: configure_def)
  with assms(4) Configure show ?thesis by auto
next
  case (Run sc)
  have "P (run sc s)" by (rule stableD(2) [OF assms(1,3)]) (simp_all add: run_def)
  with assms(4) Run show ?thesis by auto
next
  case Start
  with assms(4) obtain out where "start C n s = Some (out, s')" by auto
  then show ?thesis by (rule start_stable [OF assms(1,2,3)])
next
  case Step
  with assms(4) obtain out where "step C n s = Some (out, s')" by auto
  then show ?thesis by (rule step_stable [OF assms(1,2,3)])
next
  case (DefineObject nm call)
  with assms(4) defineObject_stable [OF assms(1,3), of nm call] show ?thesis by auto
next
  case (SpawnObject nm par args)
  with assms(4) spawnObject_stable [OF assms(1,3), of C nm par args] show ?thesis by auto
next
  case (RemoveObject r recursive)
  with assms(4) removeObject_stable [OF assms(1,3), of r recursive] show ?thesis by auto
next
  case (ReplaceObject r nm args)
  with assms(4) replaceObject_stable [OF assms(1,3), of C r nm args] show ?thesis by auto
next
  case (DefineGroup g)
  have "P (defineGroup g s)"
    by (rule stableD(2) [OF assms(1,3)]) (simp_all add: defineGroup_def split: option.splits)
  with assms(4) DefineGroup show ?thesis by auto
next
  case (AddObjectToGroup g r)
  with assms(4) addObjectToGroup_stable [OF assms(1,3), of g r] show ?thesis by auto
next
  case (RemoveObjectFromGroup g r)
  with assms(4) removeObjectFromGroup_stable [OF assms(1,3), of g r] show ?thesis by auto
next
  case (RemoveObjectFromAllGroups r)
  have "P (removeObjectFromAllGroups r s)"
    unfolding removeObjectFromAllGroups_def by (rule removeFromAll_loop_stable [OF assms(1,3)])
  with assms(4) RemoveObjectFromAllGroups show ?thesis by auto
next
  case Terminate
  have "P (terminate s)" by (rule stableD(2) [OF assms(1,3)]) (simp_all add: terminate_def)
  with assms(4) Terminate show ?thesis by auto
qed

text \<open>
  Claim C6. Every operation (\<^verbatim>\<open>begin\<close>, \<^verbatim>\<open>gotoLabel\<close>, \<^verbatim>\<open>execute\<close>, \<^verbatim>\<open>destroyAdoptions\<close> and the
  operations of the board), in whatever state it ends, preserves the invariant that a
  locked entity is ended, and leaves an entity that is locked and ended locked and ended,
  with the pending jump it had: no jump is staged for it. The calls that the operation
  makes to the executors and to the host's callbacks are taken to respect the same two
  properties.
\<close>

theorem locked_is_final:
  assumes "collab_preserves lock_inv C" and "collab_preserves (held r j) C"
    and "apply_op C n ao s = Some s'"
  shows "(lock_inv s \<longrightarrow> lock_inv s') \<and> (held r j s \<longrightarrow> held r j s')"
  using apply_op_stable [OF stable_lock_inv assms(1) _ assms(3)]
    apply_op_stable [OF stable_held assms(2) _ assms(3)]
  by blast

lemma collab_preserves_idle: "collab_preserves P idle_collab"
  by (simp add: collab_preserves_def idle_collab_def)

theorem locked_is_final_witness:
  "lock_inv demo2_removed \<and> held 2 (Some (JumpOp ''init'' [])) demo2_removed
   \<and> (\<exists>s'. apply_op idle_collab 3 Step demo2_removed = Some s'
         \<and> lock_inv s' \<and> held 2 (Some (JumpOp ''init'' [])) s')
   \<and> held 2 (Some (JumpOp ''init'' [])) (snd (gotoLabel idle_collab 2 ''init'' [] demo2_removed))"
proof -
  have li: "lock_inv demo2_removed"
    by (simp add: lock_inv_def demo2_removed_eq board_of_def ent_def blank_def)
  have h: "held 2 (Some (JumpOp ''init'' [])) demo2_removed"
    by (simp add: held_def demo2_removed_eq board_of_def ent_def)
  obtain s' where st: "apply_op idle_collab 3 Step demo2_removed = Some s'"
    by (simp add: demo2_removed_eq ops tick_ops rm_ops)
  have gl: "apply_op idle_collab 3 (GotoLabel 2 ''init'' []) demo2_removed
     = Some (snd (gotoLabel idle_collab 2 ''init'' [] demo2_removed))" by simp
  from locked_is_final [OF collab_preserves_idle collab_preserves_idle st] li h
    locked_is_final [OF collab_preserves_idle collab_preserves_idle gl, of 2 "Some (JumpOp ''init'' [])"]
    st show ?thesis by blast
qed

end
